theory Spec2Isabelle
  imports Main "HOL-Library.Word" "HOL-Library.Code_Target_Numeral"
begin

section \<open>Values of the Go program\<close>

text \<open>
  Bytes are 8-bit words. A \<^verbatim>\<open>uint64\<close> is modelled by its value, a natural number: the
  program never does arithmetic on a \<^verbatim>\<open>uint64\<close>, it only assigns, compares and converts
  them, and the two conversions are written out below with their wrap-around. A Go
  \<^verbatim>\<open>int\<close> is an integer; the one multiplication of the program is wrapped to 64 bits.
  An \<^verbatim>\<open>unsafe.Pointer\<close> is a natural number, 0 being nil.
\<close>

type_synonym byte = "8 word"
type_synonym ptr = nat

definition int_of_uint64 :: "nat \<Rightarrow> int" where
  "int_of_uint64 v = (if v < 2 ^ 63 then int v else int v - 2 ^ 64)"

definition uint64_of_int :: "int \<Rightarrow> nat" where
  "uint64_of_int i = nat (i mod 2 ^ 64)"

definition wrap_int64 :: "int \<Rightarrow> int" where
  "wrap_int64 i = (i + 2 ^ 63) mod 2 ^ 64 - 2 ^ 63"

text \<open>
  Writing \<open>ws\<close> at the start of a region: the region keeps its length, whatever is written.
\<close>

definition overlay :: "'a list \<Rightarrow> 'a list \<Rightarrow> 'a list" where
  "overlay ws region = take (length region) ws @ drop (length ws) region"

text \<open>\<^verbatim>\<open>xs[lo:hi]\<close>: a slice expression panics unless \<open>0 \<le> lo \<le> hi \<le> cap xs\<close>.\<close>

definition go_slice :: "'a list \<Rightarrow> int \<Rightarrow> int \<Rightarrow> 'a list option" where
  "go_slice xs lo hi =
     (if 0 \<le> lo \<and> lo \<le> hi \<and> hi \<le> int (length xs)
      then Some (take (nat (hi - lo)) (drop (nat lo) xs)) else None)"

text \<open>\<^verbatim>\<open>copy(dst, src)\<close> copies \<open>min (len dst) (len src)\<close> bytes and returns that number.\<close>

definition go_copy :: "'a list \<Rightarrow> 'a list \<Rightarrow> nat \<times> 'a list" where
  "go_copy dst src =
     (let n = min (length dst) (length src) in (n, take n src @ drop n dst))"

text \<open>
  Errors: \<^verbatim>\<open>io.EOF\<close>, an error made by \<^verbatim>\<open>fmt.Errorf\<close> (its message), and an error that
  belongs to the external source or sink and is handed on unchanged.
\<close>

datatype error = EOF | Errorf string | External string

text \<open>A call either returns or panics (an index or a slice bound out of range).\<close>

datatype 'a ret = Panic | Ret 'a

section \<open>The native engine\<close>

text \<open>part_003: the end operations of \<^verbatim>\<open>compressStream2\<close> and the default buffer sizes.\<close>

definition EndContinue :: nat where "EndContinue = 0"
definition EndFlush :: nat where "EndFlush = 1"
definition EndEnd :: nat where "EndEnd = 2"

definition defaultReadBufferSize :: nat where "defaultReadBufferSize = 16 * 1024"
definition defaultWriteBufferSize :: nat where "defaultWriteBufferSize = 32 * 1024"

text \<open>dictionary.go: the two cursors handed to every step of the engine.\<close>

record ZstdOutBuffer =
  out_Size :: nat
  out_Pos :: nat

record ZstdInBuffer =
  in_Src :: "byte list"
  in_Size :: nat
  in_Pos :: nat

text \<open>
  What a step of the engine does to the memory it is given: its return value, the bytes it
  wrote from the start of the output region (the output \<^verbatim>\<open>Pos\<close> becomes their number),
  and the input \<^verbatim>\<open>Pos\<close> it leaves.
\<close>

record step_reply =
  hint :: nat
  written :: "byte list"
  new_in_Pos :: nat

text \<open>
  The \<^verbatim>\<open>Zstd\<close> struct of dictionary.go holds the functions of the shared library. The
  library is not part of the repository, so it is a parameter: a record of functions over a
  state \<open>'e\<close> of the engine's own. The functions without a handle are pure.
\<close>

record 'e Zstd =
  compressBound :: "nat \<Rightarrow> nat"
  isError :: "nat \<Rightarrow> int"
  getErrorName :: "nat \<Rightarrow> string"
  compress :: "nat \<Rightarrow> byte list \<Rightarrow> int \<Rightarrow> nat \<times> byte list"
  decompress :: "nat \<Rightarrow> byte list \<Rightarrow> nat \<times> byte list"
  createCCtx :: "'e \<Rightarrow> ptr \<times> 'e"
  freeCCtx :: "ptr \<Rightarrow> 'e \<Rightarrow> 'e"
  createDCtx :: "'e \<Rightarrow> ptr \<times> 'e"
  freeDCtx :: "ptr \<Rightarrow> 'e \<Rightarrow> 'e"
  createCStream :: "'e \<Rightarrow> ptr \<times> 'e"
  freeCStream :: "ptr \<Rightarrow> 'e \<Rightarrow> 'e"
  compressStream2 :: "ptr \<Rightarrow> ZstdOutBuffer \<Rightarrow> ZstdInBuffer \<Rightarrow> nat \<Rightarrow> 'e \<Rightarrow> step_reply \<times> 'e"
  createDStream :: "'e \<Rightarrow> ptr \<times> 'e"
  freeDStream :: "ptr \<Rightarrow> 'e \<Rightarrow> 'e"
  decompressStream :: "ptr \<Rightarrow> ZstdOutBuffer \<Rightarrow> ZstdInBuffer \<Rightarrow> 'e \<Rightarrow> step_reply \<times> 'e"

text \<open>
  Every call that leaves the Go code is recorded, in order: the native calls with their
  arguments and replies, and the reads and writes on the external source and sink.
\<close>

datatype event =
    Ev_compressBound nat
  | Ev_isError nat
  | Ev_getErrorName nat
  | Ev_compress nat "byte list" int
  | Ev_decompress nat "byte list"
  | Ev_createCCtx ptr
  | Ev_freeCCtx ptr
  | Ev_createDCtx ptr
  | Ev_freeDCtx ptr
  | Ev_createCStream ptr
  | Ev_freeCStream ptr
  | Ev_compressStream2 ptr ZstdOutBuffer ZstdInBuffer nat step_reply
  | Ev_createDStream ptr
  | Ev_freeDStream ptr
  | Ev_decompressStream ptr ZstdOutBuffer ZstdInBuffer step_reply
  | Ev_sink_Write "byte list" "error option"
  | Ev_source_Read nat "byte list" "error option"

fun is_native :: "event \<Rightarrow> bool" where
  "is_native (Ev_sink_Write _ _) = False"
| "is_native (Ev_source_Read _ _ _) = False"
| "is_native _ = True"

record 'e world =
  estate :: 'e
  trace :: "event list"

definition log :: "event \<Rightarrow> 'e world \<Rightarrow> 'e world" where
  "log ev st = st\<lparr>trace := trace st @ [ev]\<rparr>"

text \<open>The events a call added to the trace.\<close>

definition new_events :: "'e world \<Rightarrow> 'e world \<Rightarrow> event list" where
  "new_events st st' = drop (length (trace st)) (trace st')"

section \<open>zstd.go: the one-shot functions\<close>

definition CompressBound :: "'e Zstd \<Rightarrow> 'e world \<Rightarrow> int \<Rightarrow> 'e world \<times> int" where
  "CompressBound z st srcSize =
     (log (Ev_compressBound (uint64_of_int srcSize)) st,
      int_of_uint64 (compressBound z (uint64_of_int srcSize)))"

definition Compress ::
  "'e Zstd \<Rightarrow> 'e world \<Rightarrow> byte list \<Rightarrow> int \<Rightarrow> 'e world \<times> (byte list option \<times> error option) ret"
where
  "Compress z st src level =
     (if length src = 0 then (st, Ret (Some [], None))
      else
        let (st1, dstCapacity) = CompressBound z st (int (length src)) in
        if dstCapacity \<le> 0 then (st1, Panic)
        else
          let dst = replicate (nat dstCapacity) (0 :: byte);
              (result, ws) = compress z (uint64_of_int dstCapacity) src level;
              dst' = overlay ws dst;
              st2 = log (Ev_isError result) (log (Ev_compress (uint64_of_int dstCapacity) src level) st1)
          in if isError z result \<noteq> 0
             then (log (Ev_getErrorName result) st2,
                   Ret (None, Some (Errorf (''zstd compression error: '' @ getErrorName z result))))
             else (case go_slice dst' 0 (int result) of
                     None \<Rightarrow> (st2, Panic)
                   | Some out \<Rightarrow> (st2, Ret (Some out, None))))"

definition Decompress ::
  "'e Zstd \<Rightarrow> 'e world \<Rightarrow> byte list \<Rightarrow> int \<Rightarrow> 'e world \<times> (byte list option \<times> error option) ret"
where
  "Decompress z st src maxSize0 =
     (if length src = 0 then (st, Ret (Some [], None))
      else
        let maxSize =
              (if maxSize0 \<le> 0
               then (let m = wrap_int64 (int (length src) * 5) in if m < 1024 then 1024 else m)
               else maxSize0);
            dst = replicate (nat maxSize) (0 :: byte);
            (result, ws) = decompress z (uint64_of_int maxSize) src;
            dst' = overlay ws dst;
            st2 = log (Ev_isError result) (log (Ev_decompress (uint64_of_int maxSize) src) st)
        in if isError z result \<noteq> 0
           then (log (Ev_getErrorName result) st2,
                 Ret (None, Some (Errorf (''zstd decompression error: '' @ getErrorName z result))))
           else (case go_slice dst' 0 (int result) of
                   None \<Rightarrow> (st2, Panic)
                 | Some out \<Rightarrow> (st2, Ret (Some out, None))))"

section \<open>Loops\<close>

text \<open>
  A loop of the program is its body, a function from the state to either the next state or
  the way the loop was left, iterated. A loop that never ends has the value \<open>None\<close>.
\<close>

datatype ('s, 'r) loop_step = Next 's | Stop 'r

partial_function (option) iterate :: "('s \<Rightarrow> ('s, 'r) loop_step) \<Rightarrow> 's \<Rightarrow> 'r option" where
  "iterate body s = (case body s of Next s' \<Rightarrow> iterate body s' | Stop r \<Rightarrow> Some r)"

declare iterate.simps [code]

section \<open>part_004: the Writer\<close>

record 'k Writer =
  w_writer :: 'k
  w_ctx :: ptr
  w_level :: int
  w_buffer :: "byte list"
  w_inBuffer :: ZstdInBuffer
  w_outBuffer :: ZstdOutBuffer
  w_stream :: ptr

text \<open>
  The sink is an \<^verbatim>\<open>io.Writer\<close>: a state and a function giving the error of a write (the
  program drops the count the sink returns).
\<close>

type_synonym 'k sink = "'k \<Rightarrow> byte list \<Rightarrow> error option \<times> 'k"

definition empty_in :: ZstdInBuffer where
  "empty_in = \<lparr>in_Src = [], in_Size = 0, in_Pos = 0\<rparr>"

text \<open>zstd.go, \<^verbatim>\<open>NewWriter\<close>: the context is created with the Writer, the stream is not.\<close>

definition NewWriter :: "'e Zstd \<Rightarrow> 'e world \<Rightarrow> 'k \<Rightarrow> int \<Rightarrow> 'e world \<times> 'k Writer" where
  "NewWriter z st k level =
     (let (c, e1) = createCCtx z (estate st)
      in (log (Ev_createCCtx c) (st\<lparr>estate := e1\<rparr>),
          \<lparr>w_writer = k, w_ctx = c, w_level = level,
           w_buffer = replicate defaultWriteBufferSize 0,
           w_inBuffer = empty_in, w_outBuffer = \<lparr>out_Size = 0, out_Pos = 0\<rparr>,
           w_stream = 0\<rparr>))"

text \<open>
  The lines the three loops of the Writer share: set up the output buffer on the staging
  buffer, call \<^verbatim>\<open>compressStream2\<close>, ask \<^verbatim>\<open>isError\<close>. The caller has checked that the
  staging buffer is not empty (\<^verbatim>\<open>&w.buffer[0]\<close> panics on an empty one).
\<close>

definition compress_step ::
  "'e Zstd \<Rightarrow> nat \<Rightarrow> 'k Writer \<Rightarrow> 'e world \<Rightarrow> step_reply \<times> 'k Writer \<times> 'e world"
where
  "compress_step z endOp w st =
     (let ob = \<lparr>out_Size = length (w_buffer w), out_Pos = 0\<rparr>;
          (rep, e1) = compressStream2 z (w_stream w) ob (w_inBuffer w) endOp (estate st);
          st1 = log (Ev_isError (hint rep))
                  (log (Ev_compressStream2 (w_stream w) ob (w_inBuffer w) endOp rep)
                     (st\<lparr>estate := e1\<rparr>));
          w1 = w\<lparr>w_buffer := overlay (written rep) (w_buffer w),
                 w_outBuffer := ob\<lparr>out_Pos := length (written rep)\<rparr>,
                 w_inBuffer := (w_inBuffer w)\<lparr>in_Pos := new_in_Pos rep\<rparr>\<rparr>
      in (rep, w1, st1))"

text \<open>"Write compressed data": the filled part of the staging buffer goes to the sink.\<close>

definition forward ::
  "'k sink \<Rightarrow> 'k Writer \<Rightarrow> 'e world \<Rightarrow> ('k Writer \<times> 'e world \<times> error option) ret"
where
  "forward snk w st =
     (if out_Pos (w_outBuffer w) > 0
      then (case go_slice (w_buffer w) 0 (int (out_Pos (w_outBuffer w))) of
              None \<Rightarrow> Panic
            | Some chunk \<Rightarrow>
                let (err, k') = snk (w_writer w) chunk
                in Ret (w\<lparr>w_writer := k'\<rparr>, log (Ev_sink_Write chunk err) st, err))
      else Ret (w, st, None))"

text \<open>
  The body of the loop of \<^verbatim>\<open>Write\<close>. It is left with \<open>None\<close> when the input is used
  up, and with the values to return when it returns from inside.
\<close>

definition Write_body ::
  "'e Zstd \<Rightarrow> 'k sink \<Rightarrow> 'k Writer \<times> 'e world \<Rightarrow>
   ('k Writer \<times> 'e world, ('k Writer \<times> 'e world) \<times> (int \<times> error option) ret option) loop_step"
where
  "Write_body z snk = (\<lambda>(w, st).
     if \<not> in_Pos (w_inBuffer w) < in_Size (w_inBuffer w) then Stop ((w, st), None)
     else if w_buffer w = [] then Stop ((w, st), Some Panic)
     else
       let (rep, w1, st1) = compress_step z EndContinue w st
       in if isError z (hint rep) \<noteq> 0
          then Stop ((w1, log (Ev_getErrorName (hint rep)) st1),
                     Some (Ret (int_of_uint64 (in_Pos (w_inBuffer w1)),
                                Some (Errorf (''compression error: '' @ getErrorName z (hint rep))))))
          else (case forward snk w1 st1 of
                  Panic \<Rightarrow> Stop ((w1, st1), Some Panic)
                | Ret (w2, st2, Some e) \<Rightarrow>
                    Stop ((w2, st2), Some (Ret (int_of_uint64 (in_Pos (w_inBuffer w2)), Some e)))
                | Ret (w2, st2, None) \<Rightarrow> Next (w2, st2)))"

text \<open>"Initialize stream if not already done"\<close>

definition open_stream :: "'e Zstd \<Rightarrow> 'k Writer \<Rightarrow> 'e world \<Rightarrow> 'k Writer \<times> 'e world" where
  "open_stream z w st =
     (if w_stream w = 0
      then (let (h, e1) = createCStream z (estate st)
            in (w\<lparr>w_stream := h\<rparr>, log (Ev_createCStream h) (st\<lparr>estate := e1\<rparr>)))
      else (w, st))"

definition Write ::
  "'e Zstd \<Rightarrow> 'k sink \<Rightarrow> 'k Writer \<Rightarrow> 'e world \<Rightarrow> byte list \<Rightarrow>
   (('k Writer \<times> 'e world) \<times> (int \<times> error option) ret) option"
where
  "Write z snk w st p =
     (if length p = 0 then Some ((w, st), Ret (0, None))
      else
        let (w1, st1) = open_stream z w st
        in if w_stream w1 = 0
           then Some ((w1, st1), Ret (0, Some (Errorf ''failed to create compression stream'')))
           else
             let w2 = w1\<lparr>w_inBuffer := \<lparr>in_Src = p, in_Size = length p, in_Pos = 0\<rparr>\<rparr>
             in (case iterate (Write_body z snk) (w2, st1) of
                   None \<Rightarrow> None
                 | Some (s, Some r) \<Rightarrow> Some (s, r)
                 | Some (s, None) \<Rightarrow> Some (s, Ret (int (length p), None))))"

text \<open>The body of the loop of \<^verbatim>\<open>Flush\<close>: it always returns from inside.\<close>

definition Flush_body ::
  "'e Zstd \<Rightarrow> 'k sink \<Rightarrow> 'k Writer \<times> 'e world \<Rightarrow>
   ('k Writer \<times> 'e world, ('k Writer \<times> 'e world) \<times> error option ret) loop_step"
where
  "Flush_body z snk = (\<lambda>(w, st).
     if w_buffer w = [] then Stop ((w, st), Panic)
     else
       let (rep, w1, st1) = compress_step z EndFlush w st
       in if isError z (hint rep) \<noteq> 0
          then Stop ((w1, log (Ev_getErrorName (hint rep)) st1),
                     Ret (Some (Errorf (''flush error: '' @ getErrorName z (hint rep)))))
          else (case forward snk w1 st1 of
                  Panic \<Rightarrow> Stop ((w1, st1), Panic)
                | Ret (w2, st2, Some e) \<Rightarrow> Stop ((w2, st2), Ret (Some e))
                | Ret (w2, st2, None) \<Rightarrow>
                    if hint rep = 0 then Stop ((w2, st2), Ret None) else Next (w2, st2)))"

definition Flush ::
  "'e Zstd \<Rightarrow> 'k sink \<Rightarrow> 'k Writer \<Rightarrow> 'e world \<Rightarrow>
   (('k Writer \<times> 'e world) \<times> error option ret) option"
where
  "Flush z snk w st =
     (if w_stream w = 0 then Some ((w, st), Ret None)
      else iterate (Flush_body z snk) (w\<lparr>w_inBuffer := empty_in\<rparr>, st))"

text \<open>\<^verbatim>\<open>w.zstd.freeCStream(w.stream); w.stream = nil\<close>\<close>

definition release_stream :: "'e Zstd \<Rightarrow> 'k Writer \<times> 'e world \<Rightarrow> 'k Writer \<times> 'e world" where
  "release_stream z = (\<lambda>(w, st).
     (w\<lparr>w_stream := 0\<rparr>,
      log (Ev_freeCStream (w_stream w)) (st\<lparr>estate := freeCStream z (w_stream w) (estate st)\<rparr>)))"

text \<open>
  The body of the loop of \<^verbatim>\<open>Close\<close>: both returns from inside free the stream first,
  and the one after a fault of the engine then asks for the name of the error; the loop is
  left with \<open>None\<close> at the \<^verbatim>\<open>break\<close>.
\<close>

definition Close_body ::
  "'e Zstd \<Rightarrow> 'k sink \<Rightarrow> 'k Writer \<times> 'e world \<Rightarrow>
   ('k Writer \<times> 'e world, ('k Writer \<times> 'e world) \<times> error option ret option) loop_step"
where
  "Close_body z snk = (\<lambda>(w, st).
     if w_buffer w = [] then Stop ((w, st), Some Panic)
     else
       let (rep, w1, st1) = compress_step z EndEnd w st
       in if isError z (hint rep) \<noteq> 0
          then (let (w2, st2) = release_stream z (w1, st1)
                in Stop ((w2, log (Ev_getErrorName (hint rep)) st2),
                         Some (Ret (Some (Errorf (''close error: '' @ getErrorName z (hint rep)))))))
          else (case forward snk w1 st1 of
                  Panic \<Rightarrow> Stop ((w1, st1), Some Panic)
                | Ret (w2, st2, Some e) \<Rightarrow> Stop (release_stream z (w2, st2), Some (Ret (Some e)))
                | Ret (w2, st2, None) \<Rightarrow>
                    if hint rep = 0 then Stop ((w2, st2), None) else Next (w2, st2)))"

text \<open>The deferred function of \<^verbatim>\<open>Close\<close>: it runs on every way out, a panic included.\<close>

definition release_ctx :: "'e Zstd \<Rightarrow> 'k Writer \<times> 'e world \<Rightarrow> 'k Writer \<times> 'e world" where
  "release_ctx z = (\<lambda>(w, st).
     if w_ctx w \<noteq> 0
     then (w\<lparr>w_ctx := 0\<rparr>,
           log (Ev_freeCCtx (w_ctx w)) (st\<lparr>estate := freeCCtx z (w_ctx w) (estate st)\<rparr>))
     else (w, st))"

definition Writer_Close ::
  "'e Zstd \<Rightarrow> 'k sink \<Rightarrow> 'k Writer \<Rightarrow> 'e world \<Rightarrow>
   (('k Writer \<times> 'e world) \<times> error option ret) option"
where
  "Writer_Close z snk w st =
     (if w_stream w = 0 then Some (release_ctx z (w, st), Ret None)
      else
        (case iterate (Close_body z snk) (w\<lparr>w_inBuffer := empty_in\<rparr>, st) of
           None \<Rightarrow> None
         | Some (s, Some r) \<Rightarrow> Some (release_ctx z s, r)
         | Some (s, None) \<Rightarrow> Some (release_ctx z (release_stream z s), Ret None)))"

section \<open>part_004: the Reader\<close>

record 's Reader =
  r_reader :: 's
  r_ctx :: ptr
  r_buffer :: "byte list"
  r_inBuffer :: ZstdInBuffer
  r_outBuffer :: ZstdOutBuffer
  r_readBuffer :: "byte list"
  r_pos :: int
  r_end :: int
  r_streamEnded :: bool
  r_stream :: ptr

text \<open>
  The source is an \<^verbatim>\<open>io.Reader\<close>: a state and a function that, given the length of the
  buffer it may fill, gives the bytes it read and its error.
\<close>

type_synonym 's source = "'s \<Rightarrow> nat \<Rightarrow> (byte list \<times> error option) \<times> 's"

text \<open>
  zstd.go, \<^verbatim>\<open>NewReader\<close>: the context is created with the Reader; the stream and the
  buffer of decompressed bytes are not (a nil slice is the empty list).
\<close>

definition NewReader :: "'e Zstd \<Rightarrow> 'e world \<Rightarrow> 's \<Rightarrow> 'e world \<times> 's Reader" where
  "NewReader z st s =
     (let (c, e1) = createDCtx z (estate st)
      in (log (Ev_createDCtx c) (st\<lparr>estate := e1\<rparr>),
          \<lparr>r_reader = s, r_ctx = c,
           r_buffer = replicate defaultReadBufferSize 0,
           r_inBuffer = empty_in, r_outBuffer = \<lparr>out_Size = 0, out_Pos = 0\<rparr>,
           r_readBuffer = [], r_pos = 0, r_end = 0, r_streamEnded = False,
           r_stream = 0\<rparr>))"

text \<open>
  "Ensure ZSTD stream context is initialized": \<open>None\<close> when the engine gave no stream.
\<close>

definition ensure_stream ::
  "'e Zstd \<Rightarrow> 's Reader \<Rightarrow> 'e world \<Rightarrow> 'e world \<times> 's Reader option"
where
  "ensure_stream z r st =
     (if r_stream r = 0
      then (let (h, e1) = createDStream z (estate st);
                st1 = log (Ev_createDStream h) (st\<lparr>estate := e1\<rparr>)
            in if h = 0 then (st1, None)
               else (st1, Some (r\<lparr>r_stream := h,
                                  r_readBuffer := (if r_readBuffer r = []
                                                   then replicate defaultReadBufferSize 0
                                                   else r_readBuffer r)\<rparr>)))
      else (st, Some r))"

text \<open>
  The read on the source and the input buffer set from it. \<^verbatim>\<open>&r.buffer[0]\<close> panics when
  a source claims bytes for an empty buffer.
\<close>

definition refill ::
  "'s source \<Rightarrow> 's Reader \<Rightarrow> 'e world \<Rightarrow> ('s Reader \<times> 'e world \<times> nat \<times> error option) ret"
where
  "refill src r st =
     (let ((data, sourceReadErr), s') = src (r_reader r) (length (r_buffer r));
          nBytesFromSource = length data;
          buf = overlay data (r_buffer r);
          st1 = log (Ev_source_Read (length (r_buffer r)) data sourceReadErr) st
      in if nBytesFromSource > 0
         then (if buf = [] then Panic
               else Ret (r\<lparr>r_reader := s', r_buffer := buf,
                           r_inBuffer := \<lparr>in_Src = take nBytesFromSource buf,
                                         in_Size = nBytesFromSource, in_Pos = 0\<rparr>\<rparr>,
                         st1, nBytesFromSource, sourceReadErr))
         else Ret (r\<lparr>r_reader := s', r_buffer := buf, r_inBuffer := empty_in\<rparr>,
                   st1, nBytesFromSource, sourceReadErr))"

text \<open>
  The output buffer set on the buffer of decompressed bytes, the call of
  \<^verbatim>\<open>decompressStream\<close> and of \<^verbatim>\<open>isError\<close>. The caller has checked that the buffer is
  not empty.
\<close>

definition decompress_step ::
  "'e Zstd \<Rightarrow> 's Reader \<Rightarrow> 'e world \<Rightarrow> step_reply \<times> 's Reader \<times> 'e world"
where
  "decompress_step z r st =
     (let ob = \<lparr>out_Size = length (r_readBuffer r), out_Pos = 0\<rparr>;
          (rep, e1) = decompressStream z (r_stream r) ob (r_inBuffer r) (estate st);
          st1 = log (Ev_isError (hint rep))
                  (log (Ev_decompressStream (r_stream r) ob (r_inBuffer r) rep)
                     (st\<lparr>estate := e1\<rparr>));
          r1 = r\<lparr>r_readBuffer := overlay (written rep) (r_readBuffer r),
                 r_outBuffer := ob\<lparr>out_Pos := length (written rep)\<rparr>,
                 r_inBuffer := (r_inBuffer r)\<lparr>in_Pos := new_in_Pos rep\<rparr>\<rparr>
      in (rep, r1, st1))"

text \<open>The second half of the loop body of \<^verbatim>\<open>Read\<close>, from "Prepare the output buffer".\<close>

definition Read_decode ::
  "'e Zstd \<Rightarrow> 's Reader \<times> 'e world \<Rightarrow>
   ('s Reader \<times> 'e world, ('s Reader \<times> 'e world) \<times> (int \<times> error option) ret option) loop_step"
where
  "Read_decode z = (\<lambda>(r, st).
     if r_readBuffer r = [] then Stop ((r, st), Some Panic)
     else
       let (rep, r1, st1) = decompress_step z r st
       in if isError z (hint rep) \<noteq> 0
          then Stop ((r1\<lparr>r_streamEnded := True\<rparr>, log (Ev_getErrorName (hint rep)) st1),
                     Some (Ret (0, Some (Errorf (''zstd decompression error: '' @
                                                   getErrorName z (hint rep))))))
          else
            let r2 = r1\<lparr>r_end := int_of_uint64 (out_Pos (r_outBuffer r1))\<rparr>
            in if hint rep = 0 then Stop ((r2\<lparr>r_streamEnded := True\<rparr>, st1), None)
               else if r_end r2 > 0 then Stop ((r2, st1), None)
               else Next (r2, st1))"

text \<open>
  The body of the loop of \<^verbatim>\<open>Read\<close>. It is left with \<open>None\<close> when its condition fails or
  at a \<^verbatim>\<open>break\<close>, and with the values to return when it returns from inside.
\<close>

definition Read_body ::
  "'e Zstd \<Rightarrow> 's source \<Rightarrow> 's Reader \<times> 'e world \<Rightarrow>
   ('s Reader \<times> 'e world, ('s Reader \<times> 'e world) \<times> (int \<times> error option) ret option) loop_step"
where
  "Read_body z src = (\<lambda>(r, st).
     if \<not> (r_end r = 0 \<and> \<not> r_streamEnded r) then Stop ((r, st), None)
     else
       (case ensure_stream z r st of
          (st1, None) \<Rightarrow>
            Stop ((r, st1), Some (Ret (0, Some (Errorf ''failed to create decompression stream''))))
        | (st1, Some r1) \<Rightarrow>
            if in_Pos (r_inBuffer r1) \<ge> in_Size (r_inBuffer r1)
            then (case refill src r1 st1 of
                    Panic \<Rightarrow> Stop ((r1, st1), Some Panic)
                  | Ret (r2, st2, nBytesFromSource, sourceReadErr) \<Rightarrow>
                      if sourceReadErr \<noteq> None \<and> sourceReadErr \<noteq> Some EOF
                      then Stop ((r2, st2), Some (Ret (0, sourceReadErr)))
                      else if nBytesFromSource = 0 \<and> sourceReadErr = None
                      then Stop ((r2, st2), None)
                      else Read_decode z (r2, st2))
            else Read_decode z (r1, st1)))"

text \<open>
  \<^verbatim>\<open>Read\<close> takes the caller's slice \<open>p\<close> and returns it as it is after the call, with the
  count and the error.
\<close>

definition serve ::
  "'s Reader \<Rightarrow> 'e world \<Rightarrow> byte list \<Rightarrow>
   ('s Reader \<times> 'e world) \<times> (byte list \<times> int \<times> error option) ret"
where
  "serve r st p =
     (case go_slice (r_readBuffer r) (r_pos r) (r_end r) of
        None \<Rightarrow> ((r, st), Panic)
      | Some staged \<Rightarrow>
          let (n, p') = go_copy p staged
          in ((r\<lparr>r_pos := r_pos r + int n\<rparr>, st), Ret (p', int n, None)))"

definition Read ::
  "'e Zstd \<Rightarrow> 's source \<Rightarrow> 's Reader \<Rightarrow> 'e world \<Rightarrow> byte list \<Rightarrow>
   (('s Reader \<times> 'e world) \<times> (byte list \<times> int \<times> error option) ret) option"
where
  "Read z src r st p =
     (if r_pos r < r_end r then Some (serve r st p)
      else if r_streamEnded r then Some ((r, st), Ret (p, 0, Some EOF))
      else
        (case iterate (Read_body z src) (r\<lparr>r_pos := 0, r_end := 0\<rparr>, st) of
           None \<Rightarrow> None
         | Some (s, Some Panic) \<Rightarrow> Some (s, Panic)
         | Some (s, Some (Ret (n, err))) \<Rightarrow> Some (s, Ret (p, n, err))
         | Some ((r1, st1), None) \<Rightarrow>
             if r_end r1 = 0
             then (if r_streamEnded r1 then Some ((r1, st1), Ret (p, 0, Some EOF))
                   else Some ((r1, st1), Ret (p, 0, None)))
             else Some (serve r1 st1 p)))"

definition Reader_Close :: "'e Zstd \<Rightarrow> 's Reader \<Rightarrow> 'e world \<Rightarrow> ('s Reader \<times> 'e world) \<times> error option" where
  "Reader_Close z r st =
     (let (r1, st1) =
            (if r_stream r \<noteq> 0
             then (r\<lparr>r_stream := 0\<rparr>,
                   log (Ev_freeDStream (r_stream r))
                     (st\<lparr>estate := freeDStream z (r_stream r) (estate st)\<rparr>))
             else (r, st));
          (r2, st2) =
            (if r_ctx r1 \<noteq> 0
             then (r1\<lparr>r_ctx := 0\<rparr>,
                   log (Ev_freeDCtx (r_ctx r1))
                     (st1\<lparr>estate := freeDCtx z (r_ctx r1) (estate st1)\<rparr>))
             else (r1, st1))
      in ((r2, st2), None))"

section \<open>Sources and sinks\<close>


definition errorWriter_Write :: "error \<Rightarrow> unit sink" where
  "errorWriter_Write err = (\<lambda>k chunk. (Some err, k))"

text \<open>
  A buffer in memory, as \<^verbatim>\<open>bytes.Buffer\<close> of the example program: it keeps what was
  written, and reading takes bytes from its front and reports \<^verbatim>\<open>io.EOF\<close> once it is
  empty.
\<close>

definition Buffer_Write :: "byte list sink" where
  "Buffer_Write = (\<lambda>k chunk. (None, k @ chunk))"

definition Buffer_Read :: "byte list source" where
  "Buffer_Read = (\<lambda>s n.
     if s = [] then (([], if n = 0 then None else Some EOF), s)
     else ((take n s, None), drop n s))"


section \<open>A small engine\<close>

text \<open>
  An engine to run the adapters on. Its stream format writes every byte after a tag 1 and
  ends the frame with a tag 0; its one-shot format writes eight zero bytes as a tag 0 and
  any other group of up to eight bytes after a tag 1. Its error codes are the top values
  of \<^verbatim>\<open>uint64\<close>, as those of the library are; the hint of a step of compression is the
  number of bytes still to flush, kept below the error codes.
\<close>

record toy_state =
  c_pending :: "byte list"
  c_ended :: bool
  d_pending :: "byte list"
  d_expect_data :: bool
  d_done :: bool

definition toy_init :: toy_state where
  "toy_init = \<lparr>c_pending = [], c_ended = False, d_pending = [], d_expect_data = False,
               d_done = False\<rparr>"

definition toy_dstSize_tooSmall :: nat where
  "toy_dstSize_tooSmall = 2 ^ 64 - 70"

definition toy_corruption_detected :: nat where
  "toy_corruption_detected = 2 ^ 64 - 20"

definition toy_isError :: "nat \<Rightarrow> int" where
  "toy_isError code = (if code > 2 ^ 64 - 120 then 1 else 0)"

definition toy_getErrorName :: "nat \<Rightarrow> string" where
  "toy_getErrorName code =
     (if code = toy_dstSize_tooSmall then ''Destination buffer is too small''
      else if code = toy_corruption_detected then ''Data corruption detected''
      else ''No error detected'')"

fun toy_pack :: "byte list \<Rightarrow> byte list" where
  "toy_pack xs =
     (if xs = [] then []
      else if take 8 xs = replicate 8 0 then 0 # toy_pack (drop 8 xs)
      else 1 # take 8 xs @ toy_pack (drop 8 xs))"

declare toy_pack.simps [simp del]

fun toy_unpack :: "byte list \<Rightarrow> byte list" where
  "toy_unpack [] = []"
| "toy_unpack (t # ys) =
     (if t = 0 then replicate 8 0 @ toy_unpack ys else take 8 ys @ toy_unpack (drop 8 ys))"

definition toy_compress :: "nat \<Rightarrow> byte list \<Rightarrow> int \<Rightarrow> nat \<times> byte list" where
  "toy_compress dstCapacity src level =
     (let out = toy_pack src
      in if length out > dstCapacity then (toy_dstSize_tooSmall, []) else (length out, out))"

definition toy_decompress :: "nat \<Rightarrow> byte list \<Rightarrow> nat \<times> byte list" where
  "toy_decompress dstCapacity src =
     (let out = toy_unpack src
      in if length out > dstCapacity then (toy_dstSize_tooSmall, []) else (length out, out))"

fun toy_encode :: "byte list \<Rightarrow> byte list" where
  "toy_encode [] = []"
| "toy_encode (b # bs) = 1 # b # toy_encode bs"

definition toy_compressStream2 ::
  "ptr \<Rightarrow> ZstdOutBuffer \<Rightarrow> ZstdInBuffer \<Rightarrow> nat \<Rightarrow> toy_state \<Rightarrow> step_reply \<times> toy_state"
where
  "toy_compressStream2 h ob ib endOp e =
     (let input = drop (in_Pos ib) (take (in_Size ib) (in_Src ib));
          pend = c_pending e @ toy_encode input @
                 (if endOp = EndEnd \<and> \<not> c_ended e then [0] else [])
      in (\<lparr>hint = min (length (drop (out_Size ob) pend)) (2 ^ 63),
           written = take (out_Size ob) pend, new_in_Pos = in_Size ib\<rparr>,
          e\<lparr>c_pending := drop (out_Size ob) pend, c_ended := (c_ended e \<or> endOp = EndEnd)\<rparr>))"

text \<open>
  Reading the stream format: the bytes decoded, the number of bytes read, whether a data
  byte is still owed, whether the end tag was met, whether a wrong tag was met.
\<close>

fun toy_scan :: "bool \<Rightarrow> byte list \<Rightarrow> byte list \<times> nat \<times> bool \<times> bool \<times> bool" where
  "toy_scan ex [] = ([], 0, ex, False, False)"
| "toy_scan True (b # bs) =
     (let (d, n, ex', dn, er) = toy_scan False bs in (b # d, Suc n, ex', dn, er))"
| "toy_scan False (t # bs) =
     (if t = 0 then ([], 1, False, True, False)
      else if t = 1
      then (let (d, n, ex', dn, er) = toy_scan True bs in (d, Suc n, ex', dn, er))
      else ([], 0, False, False, True))"

definition toy_decompressStream ::
  "ptr \<Rightarrow> ZstdOutBuffer \<Rightarrow> ZstdInBuffer \<Rightarrow> toy_state \<Rightarrow> step_reply \<times> toy_state"
where
  "toy_decompressStream h ob ib e =
     (let input = drop (in_Pos ib) (take (in_Size ib) (in_Src ib));
          (d, n, ex', dn, er) =
             (if d_done e then ([], 0, False, True, False)
              else toy_scan (d_expect_data e) input)
      in if er
         then (\<lparr>hint = toy_corruption_detected, written = [], new_in_Pos = in_Pos ib\<rparr>, e)
         else
           let pend = d_pending e @ d;
               rest = drop (out_Size ob) pend
           in (\<lparr>hint = (if dn \<and> rest = [] then 0 else 1), written = take (out_Size ob) pend,
                new_in_Pos = in_Pos ib + n\<rparr>,
               e\<lparr>d_pending := rest, d_expect_data := ex', d_done := dn\<rparr>))"

definition toy :: "toy_state Zstd" where
  "toy =
     \<lparr>compressBound = (\<lambda>n. n + n div 8 + 1),
      isError = toy_isError,
      getErrorName = toy_getErrorName,
      compress = toy_compress,
      decompress = toy_decompress,
      createCCtx = (\<lambda>e. (3, e)),
      freeCCtx = (\<lambda>h e. e),
      createDCtx = (\<lambda>e. (4, e)),
      freeDCtx = (\<lambda>h e. e),
      createCStream = (\<lambda>e. (1, e\<lparr>c_pending := [], c_ended := False\<rparr>)),
      freeCStream = (\<lambda>h e. e),
      compressStream2 = toy_compressStream2,
      createDStream = (\<lambda>e. (2, e\<lparr>d_pending := [], d_expect_data := False, d_done := False\<rparr>)),
      freeDStream = (\<lambda>h e. e),
      decompressStream = toy_decompressStream\<rparr>"


definition world0 :: "toy_state world" where
  "world0 = \<lparr>estate = toy_init, trace = []\<rparr>"

text \<open>A Writer and a Reader as the constructors make them, with staging buffers of 4 bytes.\<close>

definition small_Writer :: "'k \<Rightarrow> 'k Writer" where
  "small_Writer k =
     \<lparr>w_writer = k, w_ctx = 3, w_level = 3, w_buffer = replicate 4 0,
      w_inBuffer = empty_in, w_outBuffer = \<lparr>out_Size = 0, out_Pos = 0\<rparr>, w_stream = 0\<rparr>"

definition small_Reader :: "'s \<Rightarrow> 's Reader" where
  "small_Reader s =
     \<lparr>r_reader = s, r_ctx = 4, r_buffer = replicate 4 0,
      r_inBuffer = empty_in, r_outBuffer = \<lparr>out_Size = 0, out_Pos = 0\<rparr>,
      r_readBuffer = replicate 4 0, r_pos = 0, r_end = 0, r_streamEnded = False,
      r_stream = 0\<rparr>"

section \<open>The discipline of a Session\<close>

text \<open>
  A trace keeps to the discipline of one Session when a stream is created only while none
  is held, and stepped or freed only while it is the one held. \<open>session_run\<close> follows a
  trace from the handle held at its start (0 for none) and gives the handle held at its
  end, or \<open>None\<close> where the discipline is broken: a second free, a step on a freed
  handle, a stream created over one that was never freed.
\<close>

fun session_step :: "ptr \<Rightarrow> event \<Rightarrow> ptr option" where
  "session_step cur (Ev_createCStream h) = (if cur = 0 then Some h else None)"
| "session_step cur (Ev_createDStream h) = (if cur = 0 then Some h else None)"
| "session_step cur (Ev_freeCStream h) = (if cur \<noteq> 0 \<and> h = cur then Some 0 else None)"
| "session_step cur (Ev_freeDStream h) = (if cur \<noteq> 0 \<and> h = cur then Some 0 else None)"
| "session_step cur (Ev_compressStream2 h ob ib m rep) =
     (if cur \<noteq> 0 \<and> h = cur then Some cur else None)"
| "session_step cur (Ev_decompressStream h ob ib rep) =
     (if cur \<noteq> 0 \<and> h = cur then Some cur else None)"
| "session_step cur ev = Some cur"

fun session_run :: "ptr \<Rightarrow> event list \<Rightarrow> ptr option" where
  "session_run cur [] = Some cur"
| "session_run cur (ev # evs) =
     (case session_step cur ev of None \<Rightarrow> None | Some cur' \<Rightarrow> session_run cur' evs)"

text \<open>The events that destroy a stream.\<close>

fun is_free :: "event \<Rightarrow> bool" where
  "is_free (Ev_freeCStream h) = True"
| "is_free (Ev_freeDStream h) = True"
| "is_free ev = False"

text \<open>
  The events of the loops: steps on the stream \<open>h\<close> whose output cursor starts at 0 with the
  capacity \<open>cap\<close> and whose reply is the engine's, the checks of their results, and the
  traffic with the source or sink.
\<close>

fun in_loop :: "'e Zstd \<Rightarrow> ptr \<Rightarrow> nat \<Rightarrow> event \<Rightarrow> bool" where
  "in_loop z h cap (Ev_compressStream2 h' ob ib m rep) =
     (h' = h \<and> out_Pos ob = 0 \<and> out_Size ob = cap \<and>
      (\<exists>e. rep = fst (compressStream2 z h' ob ib m e)))"
| "in_loop z h cap (Ev_decompressStream h' ob ib rep) =
     (h' = h \<and> out_Pos ob = 0 \<and> out_Size ob = cap \<and>
      (\<exists>e. rep = fst (decompressStream z h' ob ib e)))"
| "in_loop z h cap (Ev_isError c) = True"
| "in_loop z h cap (Ev_getErrorName c) = True"
| "in_loop z h cap (Ev_sink_Write chunk err) = True"
| "in_loop z h cap (Ev_source_Read n chunk err) = True"
| "in_loop z h cap ev = False"

text \<open>
  What the loops keep of a Writer and of a Reader: the handles and the capacities stay, and
  the trace grows by events of the loop only. \<open>r_track\<close> adds the one stream a Reader may
  create on the way.
\<close>

definition w_frame :: "'e Zstd \<Rightarrow> 'k Writer \<times> 'e world \<Rightarrow> 'k Writer \<times> 'e world \<Rightarrow> bool" where
  "w_frame z = (\<lambda>(w, st) (w', st').
     w_stream w' = w_stream w \<and> w_ctx w' = w_ctx w \<and> w_level w' = w_level w \<and>
     length (w_buffer w') = length (w_buffer w) \<and>
     (\<exists>evs. trace st' = trace st @ evs \<and>
            list_all (in_loop z (w_stream w) (length (w_buffer w))) evs))"

definition r_frame :: "'e Zstd \<Rightarrow> 's Reader \<times> 'e world \<Rightarrow> 's Reader \<times> 'e world \<Rightarrow> bool" where
  "r_frame z = (\<lambda>(r, st) (r', st').
     r_stream r' = r_stream r \<and> r_ctx r' = r_ctx r \<and>
     length (r_readBuffer r') = length (r_readBuffer r) \<and>
     length (r_buffer r') = length (r_buffer r) \<and>
     (\<exists>evs. trace st' = trace st @ evs \<and>
            list_all (in_loop z (r_stream r) (length (r_readBuffer r))) evs))"

definition r_track :: "'e Zstd \<Rightarrow> 's Reader \<times> 'e world \<Rightarrow> 's Reader \<times> 'e world \<Rightarrow> bool" where
  "r_track z = (\<lambda>(r0, st0) (r', st').
     r_ctx r' = r_ctx r0 \<and> length (r_buffer r') = length (r_buffer r0) \<and>
     (\<exists>pre evs. trace st' = trace st0 @ pre @ evs \<and>
        ((pre = [] \<and> r_stream r' = r_stream r0 \<and> (r_stream r0 = 0 \<longrightarrow> evs = []) \<and>
          length (r_readBuffer r') = length (r_readBuffer r0)) \<or>
         (r_stream r0 = 0 \<and> r_stream r' \<noteq> 0 \<and> pre = [Ev_createDStream (r_stream r')])) \<and>
        list_all (in_loop z (r_stream r') (length (r_readBuffer r'))) evs))"

section \<open>The output cursor\<close>

text \<open>
  An engine respects the capacity when no step writes more bytes than the output cursor
  offers. \<open>cursor_ok cap\<close> holds of a step that was called with the output position 0 and
  the capacity \<open>cap\<close> and left a position within it.
\<close>

definition respects_capacity :: "'e Zstd \<Rightarrow> bool" where
  "respects_capacity z =
     (\<forall>h ob ib m e.
        length (written (fst (compressStream2 z h ob ib m e))) \<le> out_Size ob \<and>
        length (written (fst (decompressStream z h ob ib e))) \<le> out_Size ob)"

fun cursor_ok :: "nat \<Rightarrow> event \<Rightarrow> bool" where
  "cursor_ok cap (Ev_compressStream2 h ob ib m rep) =
     (out_Pos ob = 0 \<and> out_Size ob = cap \<and> length (written rep) \<le> cap)"
| "cursor_ok cap (Ev_decompressStream h ob ib rep) =
     (out_Pos ob = 0 \<and> out_Size ob = cap \<and> length (written rep) \<le> cap)"
| "cursor_ok cap ev = True"

section \<open>A session of the example program\<close>

text \<open>
  examples/simple/main.go on the small engine: a Writer on a buffer is written to, flushed,
  written to again and closed; a Reader on the bytes of the buffer is read from and closed.
  Then both are used once more, and a Writer and a Reader are closed as the constructors
  made them.
\<close>

definition sc_written :: "byte list Writer \<times> toy_state world" where
  "sc_written = fst (the (Write toy Buffer_Write (small_Writer []) world0 [1, 2, 3]))"

definition sc_flushed :: "byte list Writer \<times> toy_state world" where
  "sc_flushed = (case sc_written of (w, st) \<Rightarrow> fst (the (Flush toy Buffer_Write w st)))"

definition sc_more :: "byte list Writer \<times> toy_state world" where
  "sc_more = (case sc_flushed of (w, st) \<Rightarrow> fst (the (Write toy Buffer_Write w st [4, 5])))"

definition sc_closed :: "byte list Writer \<times> toy_state world" where
  "sc_closed = (case sc_more of (w, st) \<Rightarrow> fst (the (Writer_Close toy Buffer_Write w st)))"

definition sc_frame :: "byte list" where
  "sc_frame = w_writer (fst sc_closed)"

definition sc_read :: "byte list Reader \<times> toy_state world" where
  "sc_read = fst (the (Read toy Buffer_Read (small_Reader sc_frame) world0 [0, 0]))"

definition sc_rclosed :: "byte list Reader \<times> toy_state world" where
  "sc_rclosed = (case sc_read of (r, st) \<Rightarrow> fst (Reader_Close toy r st))"

definition sc_rewritten :: "byte list Writer \<times> toy_state world" where
  "sc_rewritten = (case sc_closed of (w, st) \<Rightarrow> fst (the (Write toy Buffer_Write w st [6])))"

definition sc_reread :: "byte list Reader \<times> toy_state world" where
  "sc_reread = (case sc_rclosed of (r, st) \<Rightarrow> fst (the (Read toy Buffer_Read r st [0, 0])))"

definition sc_fresh_Writer :: "toy_state world \<times> byte list Writer" where
  "sc_fresh_Writer = NewWriter toy world0 [] 3"

definition sc_fresh_Reader :: "toy_state world \<times> byte list Reader" where
  "sc_fresh_Reader = NewReader toy world0 []"

section \<open>What a Write consumed and what it forwarded\<close>

text \<open>
  Read off a trace: the input position the last step of compression left (\<open>pos\<close> when
  there was none), whether no write on the sink failed, the bytes the sink accepted, and
  the bytes the steps of compression produced. \<open>sc_failed\<close> is the Writer of the example on
  a sink that always fails.
\<close>

fun pos_after :: "event list \<Rightarrow> nat \<Rightarrow> nat" where
  "pos_after [] pos = pos"
| "pos_after (Ev_compressStream2 h ob ib m rep # evs) pos = pos_after evs (new_in_Pos rep)"
| "pos_after (ev # evs) pos = pos_after evs pos"

fun sink_ok :: "event \<Rightarrow> bool" where
  "sink_ok (Ev_sink_Write chunk (Some e)) = False"
| "sink_ok ev = True"

fun forwarded :: "event list \<Rightarrow> byte list" where
  "forwarded [] = []"
| "forwarded (Ev_sink_Write chunk None # evs) = chunk @ forwarded evs"
| "forwarded (ev # evs) = forwarded evs"

fun produced :: "event list \<Rightarrow> byte list" where
  "produced [] = []"
| "produced (Ev_compressStream2 h ob ib m rep # evs) = written rep @ produced evs"
| "produced (ev # evs) = produced evs"

definition sc_failed :: "unit Writer \<times> toy_state world" where
  "sc_failed = fst (the (Write toy (errorWriter_Write (External ''sink failed''))
                          (small_Writer ()) world0 [1, 2, 3]))"

section \<open>How a Read was left\<close>









section \<open>An engine that stalls\<close>





section \<open>What is asked of an engine\<close>

text \<open>
  The round trip of the adapters rests on the engine being a codec, and the engine is not
  part of the repository. What is asked of it is written down here, for the one-shot
  functions and for the streams, and the small engine is shown to meet it.

  For the one-shot functions: for every non-empty source (of a length a Go slice can have),
  \<^verbatim>\<open>compressBound\<close> gives a positive capacity, \<^verbatim>\<open>compress\<close> into that capacity succeeds
  and returns the number of bytes it wrote, and \<^verbatim>\<open>decompress\<close> of those bytes gives the
  source back when the capacity it is given holds the source, and an error when it does
  not.
\<close>

definition oneshot_ok :: "'e Zstd \<Rightarrow> bool" where
  "oneshot_ok z =
     (\<forall>src level. src \<noteq> [] \<and> length src < 2 ^ 62 \<longrightarrow>
        0 < compressBound z (length src) \<and> compressBound z (length src) < 2 ^ 63 \<and>
        (\<forall>n ws. compress z (compressBound z (length src)) src level = (n, ws) \<longrightarrow>
           isError z n = 0 \<and> 0 < n \<and> n \<le> compressBound z (length src) \<and> length ws = n \<and>
           (\<forall>cap m ws'. 0 < cap \<and> decompress z cap ws = (m, ws') \<longrightarrow>
              (if length src \<le> cap then isError z m = 0 \<and> m = length src \<and> ws' = src
               else isError z m \<noteq> 0))))"

text \<open>
  The capacity \<^verbatim>\<open>Decompress\<close> allots for the compressed bytes \<open>c\<close>: \<^verbatim>\<open>maxSize\<close> when it
  is positive, and otherwise five times the length of \<open>c\<close> but at least 1024 (zstd.go, lines
  67 to 74).
\<close>

definition capacity :: "byte list \<Rightarrow> int \<Rightarrow> int" where
  "capacity c maxSize = (if maxSize \<le> 0 then max 1024 (int (length c) * 5) else maxSize)"

text \<open>
  For the streams, what a stream has done so far is told by relations that the engine
  keeps, one for each direction. \<open>Frame a f\<close>: the bytes \<open>f\<close> are one complete frame with the
  content \<open>a\<close>. \<open>Absorbed e h a out fin\<close>: in the state \<open>e\<close> the compression stream \<open>h\<close> has
  taken in the content \<open>a\<close> and given out the bytes \<open>out\<close>, and \<open>fin\<close> tells that the end of
  the frame was asked for. \<open>Decoded e h a f i k\<close>: the decompression stream \<open>h\<close>, reading the
  frame \<open>f\<close> of the content \<open>a\<close>, has taken in the first \<open>i\<close> bytes of \<open>f\<close> and given out the
  first \<open>k\<close> bytes of \<open>a\<close>. \<open>cwork\<close> and \<open>dwork\<close> bound the steps a stream can make without
  taking in or giving out a byte.
\<close>

record 'e contract =
  Frame :: "byte list \<Rightarrow> byte list \<Rightarrow> bool"
  Absorbed :: "'e \<Rightarrow> ptr \<Rightarrow> byte list \<Rightarrow> byte list \<Rightarrow> bool \<Rightarrow> bool"
  cwork :: "'e \<Rightarrow> ptr \<Rightarrow> nat"
  Decoded :: "'e \<Rightarrow> ptr \<Rightarrow> byte list \<Rightarrow> byte list \<Rightarrow> nat \<Rightarrow> nat \<Rightarrow> bool"
  dwork :: "'e \<Rightarrow> ptr \<Rightarrow> nat"

text \<open>The bytes an input buffer still offers: those from \<^verbatim>\<open>Pos\<close> up to \<^verbatim>\<open>Size\<close>.\<close>

definition avail :: "ZstdInBuffer \<Rightarrow> byte list" where
  "avail ib = drop (in_Pos ib) (take (in_Size ib) (in_Src ib))"

text \<open>
  Compression. A stream that was just created has taken in nothing and given out nothing.
  A step, called with the output position 0 and some room, on a stream whose frame is still
  open (or, once the end was asked for, asked again to end with no new input), is not an
  error; it moves the input position forward within the buffer, writes within the room,
  and has then taken in the bytes it passed over and given out the bytes it wrote. A step
  that passes over no input although there is some, or that flushes or ends and reports
  that more is to come, lowers \<open>cwork\<close>. When a step that ends returns 0, all the input of
  the buffer was taken in and the bytes given out are one frame of all the content.
\<close>

definition compress_ok :: "'e Zstd \<Rightarrow> 'e contract \<Rightarrow> bool" where
  "compress_ok z ct =
     ((\<forall>e. fst (createCStream z e) \<noteq> 0 \<and>
           Absorbed ct (snd (createCStream z e)) (fst (createCStream z e)) [] [] False) \<and>
      (\<forall>e h a out fin ob ib m rep e'.
         Absorbed ct e h a out fin \<and> out_Pos ob = 0 \<and> 0 < out_Size ob \<and>
         in_Pos ib \<le> in_Size ib \<and> in_Size ib \<le> length (in_Src ib) \<and>
         (m = EndContinue \<or> m = EndFlush \<or> m = EndEnd) \<and>
         (fin \<longrightarrow> m = EndEnd \<and> avail ib = []) \<and>
         compressStream2 z h ob ib m e = (rep, e') \<longrightarrow>
           isError z (hint rep) = 0 \<and>
           in_Pos ib \<le> new_in_Pos rep \<and> new_in_Pos rep \<le> in_Size ib \<and>
           length (written rep) \<le> out_Size ob \<and>
           Absorbed ct e' h (a @ take (new_in_Pos rep - in_Pos ib) (avail ib))
             (out @ written rep) (m = EndEnd) \<and>
           (new_in_Pos rep = in_Pos ib \<and>
            (if m = EndContinue then in_Pos ib < in_Size ib else hint rep \<noteq> 0) \<longrightarrow>
              cwork ct e' h < cwork ct e h) \<and>
           (m = EndEnd \<and> hint rep = 0 \<longrightarrow>
              new_in_Pos rep = in_Size ib \<and> Frame ct (a @ avail ib) (out @ written rep))))"

text \<open>
  Decompression. A stream that was just created stands at the start of any frame. A step,
  called with the output position 0 and some room and offered bytes that continue the
  frame where the stream stands, is not an error; it moves the input position forward
  within the buffer, and the bytes it writes are the next bytes of the content. It returns
  0 only when the whole frame was taken in and the whole content given out. A step that is
  offered bytes, or that is offered none after the whole frame was taken in, and that takes
  nothing in, writes nothing and does not return 0, lowers \<open>dwork\<close>.
\<close>

definition decompress_ok :: "'e Zstd \<Rightarrow> 'e contract \<Rightarrow> bool" where
  "decompress_ok z ct =
     ((\<forall>e. fst (createDStream z e) \<noteq> 0 \<and>
           (\<forall>a f. Frame ct a f \<longrightarrow>
              Decoded ct (snd (createDStream z e)) (fst (createDStream z e)) a f 0 0)) \<and>
      (\<forall>e h a f i k ob ib rep e'.
         Frame ct a f \<and> Decoded ct e h a f i k \<and> out_Pos ob = 0 \<and> 0 < out_Size ob \<and>
         in_Pos ib \<le> in_Size ib \<and> in_Size ib \<le> length (in_Src ib) \<and>
         i + length (avail ib) \<le> length f \<and> avail ib = take (length (avail ib)) (drop i f) \<and>
         decompressStream z h ob ib e = (rep, e') \<longrightarrow>
           isError z (hint rep) = 0 \<and>
           in_Pos ib \<le> new_in_Pos rep \<and> new_in_Pos rep \<le> in_Size ib \<and>
           length (written rep) \<le> out_Size ob \<and>
           k + length (written rep) \<le> length a \<and>
           written rep = take (length (written rep)) (drop k a) \<and>
           Decoded ct e' h a f (i + (new_in_Pos rep - in_Pos ib)) (k + length (written rep)) \<and>
           (hint rep = 0 \<longrightarrow>
              i + (new_in_Pos rep - in_Pos ib) = length f \<and> k + length (written rep) = length a) \<and>
           (hint rep \<noteq> 0 \<and> new_in_Pos rep = in_Pos ib \<and> written rep = [] \<and>
            (avail ib \<noteq> [] \<or> i = length f) \<longrightarrow>
              dwork ct e' h < dwork ct e h)))"

text \<open>
  Where a Writer on a buffer stands: its sink held \<open>k0\<close> when the stream was created, the
  stream has taken in the content \<open>a\<close>, and the sink holds \<open>k0\<close> followed by all the bytes
  the stream has given out. A Writer without a stream has taken in nothing.
\<close>

definition holds :: "'e contract \<Rightarrow> byte list Writer \<times> 'e world \<Rightarrow> byte list \<Rightarrow> byte list \<Rightarrow> bool" where
  "holds ct = (\<lambda>(w, st) k0 a.
     w_buffer w \<noteq> [] \<and>
     (if w_stream w = 0 then a = [] \<and> w_writer w = k0
      else (\<exists>out. Absorbed ct (estate st) (w_stream w) a out False \<and> w_writer w = k0 @ out)))"

text \<open>
  Where a Reader on a buffer that held the frame \<open>f\<close> of the content \<open>a\<close> stands: the source
  has handed out the first \<open>j\<close> bytes of \<open>f\<close>, the stream has taken in the first \<open>i\<close> of them
  and the input buffer offers the others; the stream has given out the first \<open>k\<close> bytes of
  \<open>a\<close>, the caller has received the first \<open>d\<close> of them and the others are staged between
  \<^verbatim>\<open>pos\<close> and \<^verbatim>\<open>end\<close>.
\<close>

definition tracks ::
  "'e contract \<Rightarrow> byte list \<Rightarrow> byte list \<Rightarrow> byte list Reader \<times> 'e world \<Rightarrow>
   nat \<Rightarrow> nat \<Rightarrow> nat \<Rightarrow> nat \<Rightarrow> bool"
where
  "tracks ct a f = (\<lambda>(r, st) i j k d.
     Frame ct a f \<and> r_buffer r \<noteq> [] \<and> length (r_readBuffer r) < 2 ^ 63 \<and>
     i \<le> j \<and> j \<le> length f \<and> d \<le> k \<and> k \<le> length a \<and> r_reader r = drop j f \<and>
     in_Pos (r_inBuffer r) \<le> in_Size (r_inBuffer r) \<and>
     in_Size (r_inBuffer r) \<le> length (in_Src (r_inBuffer r)) \<and>
     avail (r_inBuffer r) = take (j - i) (drop i f) \<and>
     (r_streamEnded r \<longrightarrow> i = length f \<and> k = length a) \<and>
     (if r_stream r = 0 then i = 0 \<and> k = 0 \<and> \<not> r_streamEnded r
      else Decoded ct (estate st) (r_stream r) a f i k \<and> r_readBuffer r \<noteq> []) \<and>
     (if r_pos r < r_end r
      then 0 \<le> r_pos r \<and> r_end r \<le> int (length (r_readBuffer r)) \<and>
           r_end r - r_pos r = int (k - d) \<and>
           take (k - d) (drop (nat (r_pos r)) (r_readBuffer r)) = take (k - d) (drop d a)
      else d = k))"

text \<open>
  A Writer and a Reader as the constructors make them over a buffer: no stream yet, the
  staging buffers allocated, nothing staged, and the buffer of the Writer empty.
\<close>

definition fresh_Writer :: "byte list Writer \<Rightarrow> bool" where
  "fresh_Writer w = (w_stream w = 0 \<and> w_buffer w \<noteq> [] \<and> w_writer w = [])"

definition fresh_Reader :: "byte list Reader \<Rightarrow> bool" where
  "fresh_Reader r =
     (r_stream r = 0 \<and> r_buffer r \<noteq> [] \<and> length (r_readBuffer r) < 2 ^ 63 \<and>
      r_inBuffer r = empty_in \<and> r_pos r = 0 \<and> r_end r = 0 \<and> \<not> r_streamEnded r)"

text \<open>
  \<^verbatim>\<open>io.ReadAll\<close>, with which the example program drains the Reader: it reads into the
  free room of its slice until a read returns an error, appends the bytes of every read, and
  returns what it has with the error, \<^verbatim>\<open>io.EOF\<close> counting as none. \<open>room\<close> gives the
  room it offers when it holds a number of bytes (it grows its slice when that is full, so
  the room is never 0).
\<close>

partial_function (option) ReadAll ::
  "'e Zstd \<Rightarrow> 's source \<Rightarrow> (nat \<Rightarrow> nat) \<Rightarrow> 's Reader \<times> 'e world \<Rightarrow> byte list \<Rightarrow>
   (('s Reader \<times> 'e world) \<times> (byte list \<times> error option) ret) option"
where
  "ReadAll z src room s b =
     (case Read z src (fst s) (snd s) (replicate (room (length b)) 0) of
        None \<Rightarrow> None
      | Some (s', Panic) \<Rightarrow> Some (s', Panic)
      | Some (s', Ret (p', n, err)) \<Rightarrow>
          (let b' = b @ take (nat n) p'
           in case err of
                None \<Rightarrow> ReadAll z src room s' b'
              | Some e \<Rightarrow> Some (s', Ret (b', if e = EOF then None else Some e))))"

declare ReadAll.simps [code]

text \<open>
  The small engine meets what is asked. Its frames are the bytes of the content, each after
  a tag 1, and the tag 0. Its decompression stream, while the end tag is not read, has read
  \<open>i div 2\<close> bytes of the content, and a tag more if \<open>i\<close> is odd.
\<close>

definition toy_decoded :: "toy_state \<Rightarrow> byte list \<Rightarrow> nat \<Rightarrow> nat \<Rightarrow> bool" where
  "toy_decoded e a i k =
     (k \<le> length a \<and>
      (if d_done e then i = 2 * length a + 1 \<and> take k a @ d_pending e = a
       else i \<le> 2 * length a \<and> d_expect_data e = odd i \<and>
            take k a @ d_pending e = take (i div 2) a))"

definition toy_contract :: "toy_state contract" where
  "toy_contract =
     \<lparr>Frame = (\<lambda>a f. f = toy_encode a @ [0]),
      Absorbed = (\<lambda>e h a out fin.
        c_ended e = fin \<and> out @ c_pending e = toy_encode a @ (if fin then [0] else [])),
      cwork = (\<lambda>e h. length (c_pending e) + (if c_ended e then 0 else 1)),
      Decoded = (\<lambda>e h a f i k. toy_decoded e a i k),
      dwork = (\<lambda>e h. 0)\<rparr>"

text \<open>
  The example program once more: a caller that offers room for two bytes at every read, and
  the Writer of the example closed right after its first write.
\<close>

definition sc_room :: "nat \<Rightarrow> nat" where
  "sc_room l = 2"

definition sc_closed_plain :: "byte list Writer \<times> toy_state world" where
  "sc_closed_plain = (case sc_written of (w, st) \<Rightarrow> fst (the (Writer_Close toy Buffer_Write w st)))"

section \<open>Proof rules for loops\<close>

lemma iterate_Stop: "body s = Stop r \<Longrightarrow> iterate body s = Some r"
  by (subst iterate.simps) simp

lemma iterate_Next: "body s = Next s' \<Longrightarrow> iterate body s = iterate body s'"
  by (subst iterate.simps) simp

lemma iterate_rule:
  fixes body :: "'s \<Rightarrow> ('s, 'r) loop_step"
  assumes run: "iterate body s = Some r"
    and init: "I s"
    and step: "\<And>s s'. I s \<Longrightarrow> body s = Next s' \<Longrightarrow> I s'"
    and stop: "\<And>s r. I s \<Longrightarrow> body s = Stop r \<Longrightarrow> Q r"
  shows "Q r"
proof -
  have "body = body \<longrightarrow> I s \<longrightarrow> Q r"
  proof (rule iterate.raw_induct[where P = "\<lambda>b s r. b = body \<longrightarrow> I s \<longrightarrow> Q r", OF _ run])
    fix it :: "('s \<Rightarrow> ('s, 'r) loop_step) \<Rightarrow> 's \<Rightarrow> 'r option" and b s r
    assume IH: "\<And>b' s' y. it b' s' = Some y \<Longrightarrow> b' = body \<longrightarrow> I s' \<longrightarrow> Q y"
      and eq: "(case b s of Next s' \<Rightarrow> it b s' | Stop r \<Rightarrow> Some r) = Some r"
    show "b = body \<longrightarrow> I s \<longrightarrow> Q r"
    proof (intro impI)
      assume b: "b = body" and i: "I s"
      show "Q r"
      proof (cases "body s")
        case (Next s')
        with eq b have "it body s' = Some r" by simp
        from IH[OF this] step[OF i Next] show ?thesis by simp
      next
        case (Stop r')
        with eq b have "r' = r" by simp
        with stop[OF i Stop] show ?thesis by simp
      qed
    qed
  qed
  with init show ?thesis by simp
qed

lemma iterate_None:
  assumes init: "I s"
    and step: "\<And>s. I s \<Longrightarrow> \<exists>s'. body s = Next s' \<and> I s'"
  shows "iterate body s = None"
proof (rule ccontr)
  assume "iterate body s \<noteq> None"
  then obtain r where run: "iterate body s = Some r" by auto
  have "False"
  proof (rule iterate_rule[OF run, where I = I and Q = "\<lambda>_. False"])
    show "I s" by (rule init)
  next
    fix s s' assume "I s" "body s = Next s'"
    with step[of s] show "I s'" by auto
  next
    fix s r assume "I s" "body s = Stop r"
    with step[of s] show False by auto
  qed
  then show False .
qed

lemma iterate_terminates:
  assumes wf: "wf R"
    and init: "I s"
    and step: "\<And>s s'. I s \<Longrightarrow> body s = Next s' \<Longrightarrow> I s' \<and> (s', s) \<in> R"
  shows "\<exists>r. iterate body s = Some r"
  using wf init
proof (induction s rule: wf_induct_rule)
  case (less s)
  show ?case
  proof (cases "body s")
    case (Next s')
    from step[OF less.prems Next] less.IH[of s'] obtain r where "iterate body s' = Some r" by auto
    with iterate_Next[of body s s'] Next show ?thesis by auto
  next
    case (Stop r)
    then show ?thesis by (auto simp: iterate_Stop)
  qed
qed

section \<open>The one-shot functions on an empty slice\<close>

text \<open>
  C10. For an empty input slice, \<^verbatim>\<open>Compress\<close> and \<^verbatim>\<open>Decompress\<close> return an empty slice
  that is not nil and a nil error, and they call no function of the engine: the world,
  with its trace of calls, is the one they were given.
\<close>

theorem C10_oneshot_empty:
  "Compress z st [] level = (st, Ret (Some [], None)) \<and>
   Decompress z st [] maxSize = (st, Ret (Some [], None))"
  by (simp add: Compress_def Decompress_def)

section \<open>What every call adds to the trace\<close>

lemma compress_step_props:
  assumes "compress_step z m w st = (rep, w1, st1)"
  shows "w1 = w\<lparr>w_buffer := overlay (written rep) (w_buffer w),
                 w_outBuffer := \<lparr>out_Size = length (w_buffer w), out_Pos = length (written rep)\<rparr>,
                 w_inBuffer := (w_inBuffer w)\<lparr>in_Pos := new_in_Pos rep\<rparr>\<rparr>"
    and "trace st1 = trace st @
           [Ev_compressStream2 (w_stream w) \<lparr>out_Size = length (w_buffer w), out_Pos = 0\<rparr>
              (w_inBuffer w) m rep, Ev_isError (hint rep)]"
    and "compressStream2 z (w_stream w) \<lparr>out_Size = length (w_buffer w), out_Pos = 0\<rparr>
           (w_inBuffer w) m (estate st) = (rep, estate st1)"
  using assms by (auto simp: compress_step_def Let_def log_def split: prod.splits)

lemma length_overlay [simp]: "length (overlay ws region) = length region"
  by (auto simp: overlay_def)

lemma forward_props:
  assumes "forward snk w st = Ret (w2, st2, err)"
  shows "w_stream w2 = w_stream w" and "w_ctx w2 = w_ctx w" and "w_level w2 = w_level w"
    and "w_buffer w2 = w_buffer w" and "w_inBuffer w2 = w_inBuffer w"
    and "w_outBuffer w2 = w_outBuffer w"
    and "estate st2 = estate st"
    and "\<exists>evs. trace st2 = trace st @ evs \<and> list_all (in_loop z h cap) evs \<and>
          (err \<noteq> None \<longrightarrow> evs \<noteq> [])"
  using assms
  by (auto simp: forward_def Let_def log_def split: prod.splits if_splits option.splits)

lemma session_run_append:
  "session_run cur (xs @ ys) =
     (case session_run cur xs of None \<Rightarrow> None | Some c \<Rightarrow> session_run c ys)"
  by (induction xs arbitrary: cur) (auto split: option.splits)

lemma in_loop_session:
  "h \<noteq> 0 \<Longrightarrow> list_all (in_loop z h cap) evs \<Longrightarrow> session_run h evs = Some h"
proof (induction evs)
  case Nil
  then show ?case by simp
next
  case (Cons ev evs)
  then show ?case by (cases ev) auto
qed

lemma in_loop_no_free: "list_all (in_loop z h cap) evs \<Longrightarrow> filter is_free evs = []"
proof (induction evs)
  case Nil
  then show ?case by simp
next
  case (Cons ev evs)
  then show ?case by (cases ev) auto
qed

lemma w_frame_refl: "w_frame z s s"
  by (cases s) (auto simp: w_frame_def)

lemma w_frame_trans: "w_frame z a b \<Longrightarrow> w_frame z b c \<Longrightarrow> w_frame z a c"
  by (cases a; cases b; cases c) (auto simp: w_frame_def)

lemma compress_step_frame:
  "compress_step z m w st = (rep, w1, st1) \<Longrightarrow> w_frame z (w, st) (w1, st1)"
  by (frule compress_step_props(1), frule compress_step_props(2), frule compress_step_props(3))
    (auto simp: w_frame_def intro: exI[of _ "estate st"])

lemma forward_frame:
  "forward snk w st = Ret (w2, st2, err) \<Longrightarrow> w_frame z (w, st) (w2, st2)"
  using forward_props(8)[of snk w st w2 st2 err z "w_stream w" "length (w_buffer w)"]
  by (auto simp: w_frame_def forward_props)

lemma Write_body_frame:
  assumes "Write_body z snk s = Next s' \<or> Write_body z snk s = Stop (s', r)"
  shows "w_frame z s s'"
proof (cases s)
  case (Pair w st)
  obtain rep w1 st1 where cs: "compress_step z EndContinue w st = (rep, w1, st1)"
    by (cases "compress_step z EndContinue w st") auto
  note f1 = compress_step_frame[OF cs]
  have f_log: "w_frame z (w, st) (w1, log (Ev_getErrorName c) st1)" for c
    using f1 by (auto simp: w_frame_def log_def)
  show ?thesis
    using assms Pair cs f1 f_log
    by (auto simp: Write_body_def w_frame_refl split: if_splits ret.splits option.splits
        dest!: forward_frame[where z = z] intro: w_frame_trans)
qed

lemma Write_loop_frame:
  assumes "iterate (Write_body z snk) s = Some (s', r)"
  shows "w_frame z s s'"
proof -
  have "case (s', r) of (s', r) \<Rightarrow> w_frame z s s'"
  proof (rule iterate_rule[OF assms, where I = "w_frame z s"])
    show "w_frame z s s" by (rule w_frame_refl)
  next
    fix a a' assume "w_frame z s a" "Write_body z snk a = Next a'"
    then show "w_frame z s a'" using Write_body_frame[of z snk a a']
      by (auto intro: w_frame_trans)
  next
    fix a x assume "w_frame z s a" "Write_body z snk a = Stop x"
    then show "case x of (s', r) \<Rightarrow> w_frame z s s'"
      using Write_body_frame[of z snk a "fst x" "snd x"]
      by (cases x) (auto intro: w_frame_trans)
  qed
  then show ?thesis by simp
qed

lemma open_stream_props:
  assumes "open_stream z w st = (w1, st1)"
  shows "trace st1 = trace st @ (if w_stream w = 0 then [Ev_createCStream (w_stream w1)] else [])"
    and "w_stream w \<noteq> 0 \<longrightarrow> w_stream w1 = w_stream w"
    and "w_ctx w1 = w_ctx w" and "w_buffer w1 = w_buffer w" and "w_level w1 = w_level w"
    and "w_writer w1 = w_writer w"
  using assms by (auto simp: open_stream_def Let_def log_def split: prod.splits if_splits)

lemma Write_cases:
  assumes run: "Write z snk w st p = Some ((w', st'), res)" and p: "p \<noteq> []"
    and o: "open_stream z w st = (w1, st1)"
  shows "(w_stream w1 = 0 \<and> w' = w1 \<and> st' = st1 \<and>
          res = Ret (0, Some (Errorf ''failed to create compression stream''))) \<or>
         (w_stream w1 \<noteq> 0 \<and>
          (\<exists>r. iterate (Write_body z snk)
                 (w1\<lparr>w_inBuffer := \<lparr>in_Src = p, in_Size = length p, in_Pos = 0\<rparr>\<rparr>, st1) =
                 Some ((w', st'), r) \<and>
               res = (case r of None \<Rightarrow> Ret (int (length p), None) | Some r' \<Rightarrow> r')))"
proof (cases "w_stream w1 = 0")
  case True
  with run p o show ?thesis by (simp add: Write_def)
next
  case False
  with run p o show ?thesis
    by (auto simp: Write_def Let_def split: option.splits prod.splits)
qed

lemma Write_events:
  assumes run: "Write z snk w st p = Some ((w', st'), res)" and p: "p \<noteq> []"
  shows "\<exists>evs. trace st' =
             trace st @ (if w_stream w = 0 then [Ev_createCStream (w_stream w')] else []) @ evs \<and>
           (w_stream w \<noteq> 0 \<longrightarrow> w_stream w' = w_stream w) \<and>
           (w_stream w' = 0 \<longrightarrow> evs = []) \<and>
           list_all (in_loop z (w_stream w') (length (w_buffer w))) evs \<and>
           w_ctx w' = w_ctx w \<and> length (w_buffer w') = length (w_buffer w)"
proof -
  obtain w1 st1 where o: "open_stream z w st = (w1, st1)"
    by (cases "open_stream z w st") auto
  note o1 = open_stream_props[OF o]
  from Write_cases[OF run p o] show ?thesis
  proof (elim disjE conjE exE)
    assume "w_stream w1 = 0" "w' = w1" "st' = st1"
    with o1 show ?thesis by auto
  next
    fix r
    assume ne: "w_stream w1 \<noteq> 0"
      and it: "iterate (Write_body z snk)
                (w1\<lparr>w_inBuffer := \<lparr>in_Src = p, in_Size = length p, in_Pos = 0\<rparr>\<rparr>, st1) =
               Some ((w', st'), r)"
    from Write_loop_frame[OF it] o1 ne show ?thesis
      by (auto simp: w_frame_def)
  qed
qed

lemma Write_empty: "Write z snk w st [] = Some ((w, st), Ret (0, None))"
  by (simp add: Write_def)

lemma Write_session:
  assumes run: "Write z snk w st p = Some ((w', st'), res)"
  shows "trace st' = trace st @ new_events st st' \<and>
         session_run (w_stream w) (new_events st st') = Some (w_stream w') \<and>
         filter is_free (new_events st st') = []"
proof (cases "p = []")
  case True
  with run show ?thesis by (simp add: Write_empty new_events_def)
next
  case False
  from Write_events[OF run False] obtain evs where
    e: "trace st' = trace st @ (if w_stream w = 0 then [Ev_createCStream (w_stream w')] else []) @ evs"
      "w_stream w \<noteq> 0 \<longrightarrow> w_stream w' = w_stream w" "w_stream w' = 0 \<longrightarrow> evs = []"
      "list_all (in_loop z (w_stream w') (length (w_buffer w))) evs"
    by (elim exE conjE)
  have ne: "new_events st st' = (if w_stream w = 0 then [Ev_createCStream (w_stream w')] else []) @ evs"
    using e(1) by (simp add: new_events_def)
  have "session_run (w_stream w') evs = Some (w_stream w')"
    using e(3,4) in_loop_session[of "w_stream w'"] by (cases "w_stream w' = 0") auto
  then have "session_run (w_stream w) (new_events st st') = Some (w_stream w')"
    using e(2) by (auto simp: ne session_run_append)
  moreover have "filter is_free (new_events st st') = []"
    using in_loop_no_free[OF e(4)] by (simp add: ne)
  ultimately show ?thesis using e(1) ne by simp
qed

lemma Flush_body_frame:
  assumes "Flush_body z snk s = Next s' \<or> Flush_body z snk s = Stop (s', r)"
  shows "w_frame z s s'"
proof (cases s)
  case (Pair w st)
  obtain rep w1 st1 where cs: "compress_step z EndFlush w st = (rep, w1, st1)"
    by (cases "compress_step z EndFlush w st") auto
  note f1 = compress_step_frame[OF cs]
  have f_log: "w_frame z (w, st) (w1, log (Ev_getErrorName c) st1)" for c
    using f1 by (auto simp: w_frame_def log_def)
  show ?thesis
    using assms Pair cs f1 f_log
    by (auto simp: Flush_body_def w_frame_refl split: if_splits ret.splits option.splits
        dest!: forward_frame[where z = z] intro: w_frame_trans)
qed

lemma Flush_loop_frame:
  assumes "iterate (Flush_body z snk) s = Some (s', r)"
  shows "w_frame z s s'"
proof -
  have "case (s', r) of (s', r) \<Rightarrow> w_frame z s s'"
  proof (rule iterate_rule[OF assms, where I = "w_frame z s"])
    show "w_frame z s s" by (rule w_frame_refl)
  next
    fix a a' assume "w_frame z s a" "Flush_body z snk a = Next a'"
    then show "w_frame z s a'" using Flush_body_frame[of z snk a a']
      by (auto intro: w_frame_trans)
  next
    fix a x assume "w_frame z s a" "Flush_body z snk a = Stop x"
    then show "case x of (s', r) \<Rightarrow> w_frame z s s'"
      using Flush_body_frame[of z snk a "fst x" "snd x"]
      by (cases x) (auto intro: w_frame_trans)
  qed
  then show ?thesis by simp
qed

lemma Flush_closed: "w_stream w = 0 \<Longrightarrow> Flush z snk w st = Some ((w, st), Ret None)"
  by (simp add: Flush_def)

lemma Flush_events:
  assumes run: "Flush z snk w st = Some ((w', st'), res)"
  shows "trace st' = trace st @ new_events st st' \<and>
         w_stream w' = w_stream w \<and> w_ctx w' = w_ctx w \<and>
         length (w_buffer w') = length (w_buffer w) \<and>
         (w_stream w = 0 \<longrightarrow> new_events st st' = []) \<and>
         list_all (in_loop z (w_stream w) (length (w_buffer w))) (new_events st st')"
proof (cases "w_stream w = 0")
  case True
  with run show ?thesis by (simp add: Flush_closed new_events_def)
next
  case False
  with run have "iterate (Flush_body z snk) (w\<lparr>w_inBuffer := empty_in\<rparr>, st) = Some ((w', st'), res)"
    by (simp add: Flush_def)
  from Flush_loop_frame[OF this] False show ?thesis
    by (auto simp: w_frame_def new_events_def)
qed

lemma release_stream_props:
  assumes "release_stream z (w, st) = (w', st')"
  shows "w_stream w' = 0" and "w_ctx w' = w_ctx w" and "length (w_buffer w') = length (w_buffer w)"
    and "trace st' = trace st @ [Ev_freeCStream (w_stream w)]"
  using assms by (auto simp: release_stream_def log_def)

lemma release_ctx_props:
  assumes "release_ctx z (w, st) = (w', st')"
  shows "w_stream w' = w_stream w" and "w_ctx w' = 0"
    and "length (w_buffer w') = length (w_buffer w)"
    and "trace st' = trace st @ (if w_ctx w \<noteq> 0 then [Ev_freeCCtx (w_ctx w)] else [])"
  using assms by (auto simp: release_ctx_def log_def split: if_splits)

lemma Close_body_frame:
  assumes "Close_body z snk s = Next s' \<or> Close_body z snk s = Stop (s', None) \<or>
           Close_body z snk s = Stop (s', Some Panic)"
  shows "w_frame z s s'"
proof (cases s)
  case (Pair w st)
  obtain rep w1 st1 where cs: "compress_step z EndEnd w st = (rep, w1, st1)"
    by (cases "compress_step z EndEnd w st") auto
  note f1 = compress_step_frame[OF cs]
  show ?thesis
    using assms Pair cs f1
    by (auto simp: Close_body_def w_frame_refl split: if_splits ret.splits option.splits prod.splits
        dest!: forward_frame[where z = z] intro: w_frame_trans)
qed

lemma Close_body_return:
  assumes "Close_body z snk s = Stop (s', Some (Ret e))"
  shows "\<exists>s'' post. w_frame z s s'' \<and> fst s' = fst (release_stream z s'') \<and>
           trace (snd s') = trace (snd (release_stream z s'')) @ post \<and>
           (post = [] \<or> (\<exists>c. post = [Ev_getErrorName c]))"
proof (cases s)
  case (Pair w st)
  obtain rep w1 st1 where cs: "compress_step z EndEnd w st = (rep, w1, st1)"
    by (cases "compress_step z EndEnd w st") auto
  note f1 = compress_step_frame[OF cs]
  show ?thesis
  proof (cases "w_buffer w = []")
    case True
    with assms Pair show ?thesis by (simp add: Close_body_def)
  next
    case buf: False
    show ?thesis
    proof (cases "isError z (hint rep) \<noteq> 0")
      case True
      obtain w2 st2 where rs: "release_stream z (w1, st1) = (w2, st2)"
        by (cases "release_stream z (w1, st1)")
      from assms Pair cs buf True rs
      have s': "s' = (w2, log (Ev_getErrorName (hint rep)) st2)"
        by (simp add: Close_body_def)
      show ?thesis
        apply (rule exI[of _ "(w1, st1)"], rule exI[of _ "[Ev_getErrorName (hint rep)]"])
        using f1 Pair s' rs by (simp add: log_def)
    next
      case ok: False
      show ?thesis
      proof (cases "forward snk w1 st1")
        case Panic
        with assms Pair cs buf ok show ?thesis by (simp add: Close_body_def)
      next
        case (Ret y)
        obtain w2 st2 err where y: "y = (w2, st2, err)" by (cases y)
        from forward_frame[OF Ret[unfolded y], of z] f1
        have f2: "w_frame z (w, st) (w2, st2)" by (rule w_frame_trans[rotated])
        from assms Pair cs buf ok Ret y have s': "s' = release_stream z (w2, st2)"
          by (auto simp: Close_body_def split: option.splits if_splits)
        show ?thesis
          apply (rule exI[of _ "(w2, st2)"], rule exI[of _ "[]"])
          using f2 Pair s' by simp
      qed
    qed
  qed
qed

lemma Close_loop_frame:
  assumes "iterate (Close_body z snk) s = Some (s', r)"
  shows "case r of
           Some (Ret e) \<Rightarrow>
             (\<exists>s'' post. w_frame z s s'' \<and> fst s' = fst (release_stream z s'') \<and>
                trace (snd s') = trace (snd (release_stream z s'')) @ post \<and>
                (post = [] \<or> (\<exists>c. post = [Ev_getErrorName c])))
         | _ \<Rightarrow> w_frame z s s'"
proof -
  let ?Q = "\<lambda>(s', r). case r of
           Some (Ret e) \<Rightarrow>
             (\<exists>s'' post. w_frame z s s'' \<and> fst s' = fst (release_stream z s'') \<and>
                trace (snd s') = trace (snd (release_stream z s'')) @ post \<and>
                (post = [] \<or> (\<exists>c. post = [Ev_getErrorName c])))
         | _ \<Rightarrow> w_frame z s s'"
  have "?Q (s', r)"
  proof (rule iterate_rule[OF assms, where I = "w_frame z s"])
    show "w_frame z s s" by (rule w_frame_refl)
  next
    fix a a' assume "w_frame z s a" "Close_body z snk a = Next a'"
    then show "w_frame z s a'" using Close_body_frame[of z snk a a']
      by (auto intro: w_frame_trans)
  next
    fix a x assume a: "w_frame z s a" "Close_body z snk a = Stop x"
    obtain t q where x: "x = (t, q)" by (cases x)
    show "?Q x"
    proof (cases q)
      case None
      with a x Close_body_frame[of z snk a t] show ?thesis by (auto intro: w_frame_trans)
    next
      case (Some y)
      show ?thesis
      proof (cases y)
        case Panic
        with a x Some Close_body_frame[of z snk a t] show ?thesis by (auto intro: w_frame_trans)
      next
        case (Ret e)
        from Close_body_return[of z snk a t e] a(2) x Some Ret obtain s'' post where
          c: "w_frame z a s''" "fst t = fst (release_stream z s'')"
            "trace (snd t) = trace (snd (release_stream z s'')) @ post"
            "post = [] \<or> (\<exists>c. post = [Ev_getErrorName c])"
          by auto
        have "\<exists>s'' post. w_frame z s s'' \<and> fst t = fst (release_stream z s'') \<and>
                trace (snd t) = trace (snd (release_stream z s'')) @ post \<and>
                (post = [] \<or> (\<exists>c. post = [Ev_getErrorName c]))"
          by (rule exI[of _ s''], rule exI[of _ post])
            (use w_frame_trans[OF a(1) c(1)] c(2,3,4) in simp)
        with x Some Ret show ?thesis by simp
      qed
    qed
  qed
  then show ?thesis by (auto split: option.splits ret.splits)
qed

lemma Writer_Close_closed:
  "w_stream w = 0 \<Longrightarrow> Writer_Close z snk w st = Some (release_ctx z (w, st), Ret None)"
  by (simp add: Writer_Close_def)

lemma Writer_Close_events:
  assumes run: "Writer_Close z snk w st = Some ((w', st'), res)"
  shows "\<exists>evs post. trace st' = trace st @ evs @
             (if res \<noteq> Panic \<and> w_stream w \<noteq> 0 then [Ev_freeCStream (w_stream w)] else []) @
             post @
             (if w_ctx w \<noteq> 0 then [Ev_freeCCtx (w_ctx w)] else []) \<and>
           (post = [] \<or> (\<exists>c. post = [Ev_getErrorName c])) \<and>
           list_all (in_loop z (w_stream w) (length (w_buffer w))) evs \<and>
           (w_stream w = 0 \<longrightarrow> evs = [] \<and> res = Ret None) \<and>
           w_ctx w' = 0 \<and> length (w_buffer w') = length (w_buffer w) \<and>
           w_stream w' = (if res = Panic then w_stream w else 0)"
proof (cases "w_stream w = 0")
  case True
  with run have "release_ctx z (w, st) = (w', st')" "res = Ret None"
    by (simp_all add: Writer_Close_closed)
  with release_ctx_props[of z w st w' st'] True show ?thesis by auto
next
  case False
  let ?s0 = "(w\<lparr>w_inBuffer := empty_in\<rparr>, st)"
  have f0: "w_frame z (w, st) ?s0" by (simp add: w_frame_def)
  from run False obtain s r where it: "iterate (Close_body z snk) ?s0 = Some (s, r)"
    and res: "(case r of Some r' \<Rightarrow> ((w', st'), res) = (release_ctx z s, r')
              | None \<Rightarrow> ((w', st'), res) = (release_ctx z (release_stream z s), Ret None))"
    by (auto simp: Writer_Close_def split: option.splits prod.splits)
  note lf = Close_loop_frame[OF it]
  show ?thesis
  proof (cases r)
    case None
    with lf have f: "w_frame z ?s0 s" by simp
    obtain a b where s: "s = (a, b)" by (cases s)
    obtain a1 b1 where rs: "release_stream z (a, b) = (a1, b1)" by (cases "release_stream z (a, b)")
    from res None s rs have rc: "release_ctx z (a1, b1) = (w', st')" and r: "res = Ret None" by auto
    from f s obtain evs where
      e: "trace b = trace st @ evs" "list_all (in_loop z (w_stream w) (length (w_buffer w))) evs"
        "w_stream a = w_stream w" "w_ctx a = w_ctx w" "length (w_buffer a) = length (w_buffer w)"
      by (auto simp: w_frame_def)
    show ?thesis
      apply (rule exI[of _ evs], rule exI[of _ "[]"])
      using e release_stream_props[OF rs] release_ctx_props[OF rc] r False by auto
  next
    case (Some y)
    show ?thesis
    proof (cases y)
      case Panic
      with lf Some have f: "w_frame z ?s0 s" by simp
      obtain a b where s: "s = (a, b)" by (cases s)
      from res Some Panic s have rc: "release_ctx z (a, b) = (w', st')" and r: "res = Panic" by auto
      from f s obtain evs where
        e: "trace b = trace st @ evs" "list_all (in_loop z (w_stream w) (length (w_buffer w))) evs"
          "w_stream a = w_stream w" "w_ctx a = w_ctx w" "length (w_buffer a) = length (w_buffer w)"
        by (auto simp: w_frame_def)
      show ?thesis
        apply (rule exI[of _ evs], rule exI[of _ "[]"])
        using e release_ctx_props[OF rc] r False by auto
    next
      case (Ret e)
      with lf Some obtain s'' post where f: "w_frame z ?s0 s''"
        and s: "fst s = fst (release_stream z s'')"
          "trace (snd s) = trace (snd (release_stream z s'')) @ post"
        and post: "post = [] \<or> (\<exists>c. post = [Ev_getErrorName c])" by auto
      obtain a b where s'': "s'' = (a, b)" by (cases s'')
      obtain a1 b1 where rs: "release_stream z (a, b) = (a1, b1)" by (cases "release_stream z (a, b)")
      obtain a2 b2 where s2: "s = (a2, b2)" by (cases s)
      from s s'' rs s2 have ab: "a2 = a1" "trace b2 = trace b1 @ post" by simp_all
      from res Some Ret s2 have rc: "release_ctx z (a2, b2) = (w', st')" and r: "res = Ret e" by auto
      note rp = release_stream_props[OF rs] and cp = release_ctx_props[OF rc]
      from f s'' obtain evs where
        e: "trace b = trace st @ evs" "list_all (in_loop z (w_stream w) (length (w_buffer w))) evs"
          "w_stream a = w_stream w" "w_ctx a = w_ctx w" "length (w_buffer a) = length (w_buffer w)"
        by (auto simp: w_frame_def)
      show ?thesis
        apply (rule exI[of _ evs], rule exI[of _ post])
        using e rp cp ab r False post by auto
    qed
  qed
qed

lemma r_frame_refl: "r_frame z s s"
  by (cases s) (auto simp: r_frame_def)

lemma r_frame_trans: "r_frame z a b \<Longrightarrow> r_frame z b c \<Longrightarrow> r_frame z a c"
  by (cases a; cases b; cases c) (auto simp: r_frame_def)

lemma ensure_stream_props:
  assumes "ensure_stream z r st = (st1, ro)"
  shows "r_stream r \<noteq> 0 \<longrightarrow> st1 = st \<and> ro = Some r"
    and "r_stream r = 0 \<longrightarrow>
           (case ro of None \<Rightarrow> trace st1 = trace st @ [Ev_createDStream 0]
            | Some r1 \<Rightarrow> r_stream r1 \<noteq> 0 \<and>
                trace st1 = trace st @ [Ev_createDStream (r_stream r1)] \<and>
                r_ctx r1 = r_ctx r \<and> r_buffer r1 = r_buffer r \<and> r_reader r1 = r_reader r \<and>
                r_inBuffer r1 = r_inBuffer r \<and> r_pos r1 = r_pos r \<and> r_end r1 = r_end r \<and>
                r_streamEnded r1 = r_streamEnded r \<and>
                r_readBuffer r1 = (if r_readBuffer r = []
                                   then replicate defaultReadBufferSize 0
                                   else r_readBuffer r))"
  using assms
  by (auto simp: ensure_stream_def Let_def log_def split: prod.splits if_splits)

lemma refill_frame:
  "refill src r st = Ret (r2, st2, n, err) \<Longrightarrow> r_frame z (r, st) (r2, st2)"
  by (auto simp: refill_def Let_def log_def r_frame_def split: prod.splits if_splits)

lemma decompress_step_props:
  assumes "decompress_step z r st = (rep, r1, st1)"
  shows "r1 = r\<lparr>r_readBuffer := overlay (written rep) (r_readBuffer r),
                 r_outBuffer := \<lparr>out_Size = length (r_readBuffer r), out_Pos = length (written rep)\<rparr>,
                 r_inBuffer := (r_inBuffer r)\<lparr>in_Pos := new_in_Pos rep\<rparr>\<rparr>"
    and "trace st1 = trace st @
           [Ev_decompressStream (r_stream r) \<lparr>out_Size = length (r_readBuffer r), out_Pos = 0\<rparr>
              (r_inBuffer r) rep, Ev_isError (hint rep)]"
    and "decompressStream z (r_stream r) \<lparr>out_Size = length (r_readBuffer r), out_Pos = 0\<rparr>
           (r_inBuffer r) (estate st) = (rep, estate st1)"
  using assms by (auto simp: decompress_step_def Let_def log_def split: prod.splits)

lemma decompress_step_frame:
  "decompress_step z r st = (rep, r1, st1) \<Longrightarrow> r_frame z (r, st) (r1, st1)"
  by (frule decompress_step_props(1), frule decompress_step_props(2), frule decompress_step_props(3))
    (auto simp: r_frame_def intro: exI[of _ "estate st"])

lemma Read_decode_frame:
  assumes "Read_decode z s = Next s' \<or> Read_decode z s = Stop (s', q)"
  shows "r_frame z s s'"
proof (cases s)
  case (Pair r st)
  obtain rep r1 st1 where ds: "decompress_step z r st = (rep, r1, st1)"
    by (cases "decompress_step z r st") auto
  from decompress_step_frame[OF ds] have f1: "r_frame z (r, st) (r1\<lparr>r_end := e\<rparr>, st1)"
    "r_frame z (r, st) (r1\<lparr>r_end := e, r_streamEnded := True\<rparr>, st1)"
    "r_frame z (r, st) (r1\<lparr>r_streamEnded := True\<rparr>, log (Ev_getErrorName c) st1)" for e c
    by (auto simp: r_frame_def log_def)
  show ?thesis
    using assms Pair ds f1
    by (auto simp: Read_decode_def r_frame_refl Let_def split: if_splits)
qed

lemma Read_body_frame:
  assumes es: "ensure_stream z r st = (st1, Some r1)"
    and b: "Read_body z src (r, st) = Next s' \<or> Read_body z src (r, st) = Stop (s', q)"
    and c: "r_end r = 0 \<and> \<not> r_streamEnded r"
  shows "r_frame z (r1, st1) s'"
  using assms
  by (auto simp: Read_body_def r_frame_refl split: if_splits ret.splits
      dest!: refill_frame[where z = z] Read_decode_frame[OF disjI1] Read_decode_frame[OF disjI2]
      intro: r_frame_trans)

lemma r_track_refl: "r_track z s s"
  by (cases s) (auto simp: r_track_def)

lemma r_track_ensure:
  assumes t: "r_track z s0 (r, st)" and es: "ensure_stream z r st = (st1, Some r1)"
  shows "r_track z s0 (r1, st1) \<and> r_stream r1 \<noteq> 0"
proof (cases "r_stream r = 0")
  case False
  with ensure_stream_props(1)[OF es] t show ?thesis by auto
next
  case True
  obtain r0 st0 where s0: "s0 = (r0, st0)" by (cases s0)
  from ensure_stream_props(2)[OF es] True have
    e: "r_stream r1 \<noteq> 0" "trace st1 = trace st @ [Ev_createDStream (r_stream r1)]"
       "r_ctx r1 = r_ctx r" "r_buffer r1 = r_buffer r"
    by auto
  from t True s0 have "trace st = trace st0" "r_stream r0 = 0" "r_ctx r = r_ctx r0"
    "length (r_buffer r) = length (r_buffer r0)"
    by (auto simp: r_track_def)
  with e s0 show ?thesis
    by (auto simp: r_track_def)
qed

lemma r_track_frame:
  assumes t: "r_track z s0 s1" and ne: "r_stream (fst s1) \<noteq> 0" and f: "r_frame z s1 s2"
  shows "r_track z s0 s2"
  using assms
  by (cases s0; cases s1; cases s2) (auto simp: r_track_def r_frame_def)

lemma Read_loop_track:
  assumes run: "iterate (Read_body z src) s0 = Some ((r', st'), q)"
  shows "r_track z s0 (r', st') \<or>
         (\<exists>st1. r_track z s0 (r', st1) \<and> r_stream r' = 0 \<and>
                trace st' = trace st1 @ [Ev_createDStream 0])"
proof -
  let ?Q = "\<lambda>((r', st'), q :: (int \<times> error option) ret option). r_track z s0 (r', st') \<or>
         (\<exists>st1. r_track z s0 (r', st1) \<and> r_stream r' = 0 \<and>
                trace st' = trace st1 @ [Ev_createDStream 0])"
  have "?Q ((r', st'), q)"
  proof (rule iterate_rule[OF run, where I = "r_track z s0"])
    show "r_track z s0 s0" by (rule r_track_refl)
  next
    fix a a' assume t: "r_track z s0 a" and b: "Read_body z src a = Next a'"
    obtain r st where a: "a = (r, st)" by (cases a)
    obtain st1 ro where es: "ensure_stream z r st = (st1, ro)" by (cases "ensure_stream z r st")
    from b a es obtain r1 where ro: "ro = Some r1" and c: "r_end r = 0 \<and> \<not> r_streamEnded r"
      by (cases ro) (auto simp: Read_body_def split: if_splits)
    from r_track_ensure[OF t[unfolded a] es[unfolded ro]]
      Read_body_frame[OF es[unfolded ro] disjI1 c, of src a'] b a
    show "r_track z s0 a'" by (auto intro: r_track_frame)
  next
    fix a x assume t: "r_track z s0 a" and b: "Read_body z src a = Stop x"
    obtain r st where a: "a = (r, st)" by (cases a)
    obtain s' q' where x: "x = (s', q')" by (cases x)
    obtain r'' st'' where s': "s' = (r'', st'')" by (cases s')
    obtain st1 ro where es: "ensure_stream z r st = (st1, ro)" by (cases "ensure_stream z r st")
    show "?Q x"
    proof (cases "r_end r = 0 \<and> \<not> r_streamEnded r")
      case False
      with b a x t show ?thesis by (auto simp: Read_body_def)
    next
      case True
      show ?thesis
      proof (cases ro)
        case None
        with b a x s' es True have eq: "r'' = r" "st'' = st1"
          by (auto simp: Read_body_def)
        from ensure_stream_props[OF es] None have "r_stream r = 0"
          "trace st1 = trace st @ [Ev_createDStream 0]"
          by (cases "r_stream r = 0"; auto)+
        with t a x s' eq show ?thesis by auto
      next
        case (Some r1)
        from r_track_ensure[OF t[unfolded a] es[unfolded Some]]
          Read_body_frame[OF es[unfolded Some] disjI2 True, of src s' q'] b a x
        have "r_track z s0 s'" by (auto intro: r_track_frame)
        with x s' show ?thesis by simp
      qed
    qed
  qed
  then show ?thesis by simp
qed

lemma serve_props:
  assumes "serve r st p = ((r', st'), res)"
  shows "st' = st" and "r_stream r' = r_stream r" and "r_ctx r' = r_ctx r"
    and "r_readBuffer r' = r_readBuffer r" and "r_buffer r' = r_buffer r"
    and "r_streamEnded r' = r_streamEnded r" and "r_end r' = r_end r"
  using assms by (auto simp: serve_def Let_def split: option.splits prod.splits)

lemma Read_cases:
  assumes run: "Read z src r st p = Some ((r', st'), res)"
  shows "(r_pos r < r_end r \<and> serve r st p = ((r', st'), res)) \<or>
         (\<not> r_pos r < r_end r \<and> r_streamEnded r \<and> r' = r \<and> st' = st \<and>
          res = Ret (p, 0, Some EOF)) \<or>
         (\<not> r_pos r < r_end r \<and> \<not> r_streamEnded r \<and>
          (\<exists>r1 st1 q. iterate (Read_body z src) (r\<lparr>r_pos := 0, r_end := 0\<rparr>, st) =
                         Some ((r1, st1), q) \<and>
             (case q of
                Some Panic \<Rightarrow> r' = r1 \<and> st' = st1 \<and> res = Panic
              | Some (Ret (n, err)) \<Rightarrow> r' = r1 \<and> st' = st1 \<and> res = Ret (p, n, err)
              | None \<Rightarrow>
                  if r_end r1 = 0
                  then r' = r1 \<and> st' = st1 \<and>
                       res = Ret (p, 0, if r_streamEnded r1 then Some EOF else None)
                  else serve r1 st1 p = ((r', st'), res))))"
proof (cases "r_pos r < r_end r")
  case True
  with run show ?thesis by (simp add: Read_def)
next
  case False
  show ?thesis
  proof (cases "r_streamEnded r")
    case True
    with run False show ?thesis by (simp add: Read_def)
  next
    case ne: False
    from run False ne obtain s q where
      it: "iterate (Read_body z src) (r\<lparr>r_pos := 0, r_end := 0\<rparr>, st) = Some (s, q)"
      by (auto simp: Read_def split: option.splits)
    obtain r1 st1 where s: "s = (r1, st1)" by (cases s)
    from run False ne it s show ?thesis
      by (auto simp: Read_def split: option.splits ret.splits if_splits)
  qed
qed

lemma Read_events:
  assumes run: "Read z src r st p = Some ((r', st'), res)"
  shows "\<exists>pre evs. trace st' = trace st @ pre @ evs \<and>
           ((pre = [] \<and> r_stream r' = r_stream r) \<or>
            (r_stream r = 0 \<and> pre = [Ev_createDStream (r_stream r')])) \<and>
           (r_stream r' = 0 \<longrightarrow> evs = []) \<and>
           list_all (in_loop z (r_stream r') (length (r_readBuffer r'))) evs \<and>
           r_ctx r' = r_ctx r"
proof -
  have triv: ?thesis if "st' = st" "r_stream r' = r_stream r" "r_ctx r' = r_ctx r"
    using that by (intro exI[of _ "[]"]) simp
  from Read_cases[OF run] show ?thesis
  proof (elim disjE conjE exE)
    assume "serve r st p = ((r', st'), res)"
    from serve_props[OF this] show ?thesis by (intro triv) simp_all
  next
    assume "r' = r" "st' = st"
    then show ?thesis by (intro triv) simp_all
  next
    fix r1 st1 q
    assume it: "iterate (Read_body z src) (r\<lparr>r_pos := 0, r_end := 0\<rparr>, st) = Some ((r1, st1), q)"
      and q: "case q of
                Some Panic \<Rightarrow> r' = r1 \<and> st' = st1 \<and> res = Panic
              | Some (Ret (n, err)) \<Rightarrow> r' = r1 \<and> st' = st1 \<and> res = Ret (p, n, err)
              | None \<Rightarrow>
                  if r_end r1 = 0
                  then r' = r1 \<and> st' = st1 \<and>
                       res = Ret (p, 0, if r_streamEnded r1 then Some EOF else None)
                  else serve r1 st1 p = ((r', st'), res)"
    have same: "st' = st1 \<and> r_stream r' = r_stream r1 \<and> r_ctx r' = r_ctx r1 \<and>
                r_readBuffer r' = r_readBuffer r1"
      using q serve_props[of r1 st1 p r' st' res]
      by (auto split: option.splits ret.splits if_splits)
    from Read_loop_track[OF it] same show ?thesis
      by (auto simp: r_track_def)
  qed
qed

lemma Read_session:
  assumes run: "Read z src r st p = Some ((r', st'), res)"
  shows "trace st' = trace st @ new_events st st' \<and>
         session_run (r_stream r) (new_events st st') = Some (r_stream r') \<and>
         filter is_free (new_events st st') = []"
proof -
  from Read_events[OF run] obtain pre evs where
    e: "trace st' = trace st @ pre @ evs"
      "(pre = [] \<and> r_stream r' = r_stream r) \<or>
       (r_stream r = 0 \<and> pre = [Ev_createDStream (r_stream r')])"
      "r_stream r' = 0 \<longrightarrow> evs = []"
      "list_all (in_loop z (r_stream r') (length (r_readBuffer r'))) evs"
    by (elim exE conjE)
  have ne: "new_events st st' = pre @ evs" using e(1) by (simp add: new_events_def)
  have "session_run (r_stream r') evs = Some (r_stream r')"
    using e(3,4) in_loop_session[of "r_stream r'"] by (cases "r_stream r' = 0") auto
  then have "session_run (r_stream r) (new_events st st') = Some (r_stream r')"
    using e(2) by (auto simp: ne session_run_append)
  moreover have "filter is_free (new_events st st') = []"
    using in_loop_no_free[OF e(4)] e(2) by (auto simp: ne)
  ultimately show ?thesis using e(1) ne by simp
qed

lemma Reader_Close_events:
  assumes "Reader_Close z r st = ((r', st'), res)"
  shows "res = None" and "r_stream r' = 0" and "r_ctx r' = 0"
    and "trace st' = trace st @
           (if r_stream r \<noteq> 0 then [Ev_freeDStream (r_stream r)] else []) @
           (if r_ctx r \<noteq> 0 then [Ev_freeDCtx (r_ctx r)] else [])"
  using assms by (auto simp: Reader_Close_def Let_def log_def split: if_splits)

section \<open>The session of the example program, run\<close>

lemma sc_Write: "Write toy Buffer_Write (small_Writer []) world0 [1, 2, 3] = Some (sc_written, Ret (3, None))"
  by code_simp

lemma sc_Flush: "Flush toy Buffer_Write (fst sc_written) (snd sc_written) = Some (sc_flushed, Ret None)"
  by code_simp

lemma sc_Write2: "Write toy Buffer_Write (fst sc_flushed) (snd sc_flushed) [4, 5] = Some (sc_more, Ret (2, None))"
  by code_simp

lemma sc_Close: "Writer_Close toy Buffer_Write (fst sc_more) (snd sc_more) = Some (sc_closed, Ret None)"
  by code_simp

lemma sc_frame_eq: "sc_frame = [1, 1, 1, 2, 1, 3, 1, 4, 1, 5, 0]"
  by code_simp

lemma sc_Read: "Read toy Buffer_Read (small_Reader sc_frame) world0 [0, 0] = Some (sc_read, Ret ([1, 2], 2, None))"
  by code_simp

lemma sc_Reader_Close: "Reader_Close toy (fst sc_read) (snd sc_read) = (sc_rclosed, None)"
  by code_simp

lemma sc_Write3: "Write toy Buffer_Write (fst sc_closed) (snd sc_closed) [6] = Some (sc_rewritten, Ret (1, None))"
  by code_simp

lemma sc_Read2: "Read toy Buffer_Read (fst sc_rclosed) (snd sc_rclosed) [0, 0] = Some (sc_reread, Ret ([3, 4], 2, None))"
  by code_simp

section \<open>The Session is destroyed by Close, and only by Close\<close>

text \<open>
  C7, as the code has it. Every call keeps to the discipline of one Session: no stream is
  freed twice, stepped after it was freed, or created over one still held. Only Close
  destroys the Session: \<^verbatim>\<open>Write\<close>, \<^verbatim>\<open>Flush\<close> and \<^verbatim>\<open>Read\<close> free nothing, whether they
  succeed or fail, so after a fatal error in them the Session stays allocated until Close is
  called. Whenever \<^verbatim>\<open>Close\<close> returns, with or without an error, it has freed the Session
  that was held exactly once, and the adapter holds none.
\<close>

theorem C7_session_freed_only_by_Close:
  "(Write z snk w st p = Some ((w', st'), wres) \<longrightarrow>
      session_run (w_stream w) (new_events st st') = Some (w_stream w') \<and>
      filter is_free (new_events st st') = []) \<and>
   (Flush z snk w st = Some ((w', st'), fres) \<longrightarrow>
      session_run (w_stream w) (new_events st st') = Some (w_stream w') \<and>
      filter is_free (new_events st st') = []) \<and>
   (Writer_Close z snk w st = Some ((w', st'), Ret cerr) \<longrightarrow>
      session_run (w_stream w) (new_events st st') = Some 0 \<and> w_stream w' = 0 \<and>
      filter is_free (new_events st st') =
        (if w_stream w \<noteq> 0 then [Ev_freeCStream (w_stream w)] else [])) \<and>
   (Read z src r st q = Some ((r', st'), rres) \<longrightarrow>
      session_run (r_stream r) (new_events st st') = Some (r_stream r') \<and>
      filter is_free (new_events st st') = []) \<and>
   (Reader_Close z r st = ((r', st'), rerr) \<longrightarrow>
      session_run (r_stream r) (new_events st st') = Some 0 \<and> r_stream r' = 0 \<and>
      filter is_free (new_events st st') =
        (if r_stream r \<noteq> 0 then [Ev_freeDStream (r_stream r)] else []))"
proof (intro conjI impI)
  assume "Write z snk w st p = Some ((w', st'), wres)"
  from Write_session[OF this]
  show "session_run (w_stream w) (new_events st st') = Some (w_stream w')"
    and "filter is_free (new_events st st') = []" by simp_all
next
  assume "Flush z snk w st = Some ((w', st'), fres)"
  from Flush_events[OF this]
  have e: "w_stream w' = w_stream w" "w_stream w = 0 \<longrightarrow> new_events st st' = []"
    "list_all (in_loop z (w_stream w) (length (w_buffer w))) (new_events st st')"
    by simp_all
  show "session_run (w_stream w) (new_events st st') = Some (w_stream w')"
    using e in_loop_session[of "w_stream w" z] by (cases "w_stream w = 0") auto
  show "filter is_free (new_events st st') = []"
    using in_loop_no_free[OF e(3)] .
next
  assume "Writer_Close z snk w st = Some ((w', st'), Ret cerr)"
  from Writer_Close_events[OF this] obtain evs post where
    e: "trace st' = trace st @ evs @
             (if Ret cerr \<noteq> Panic \<and> w_stream w \<noteq> 0 then [Ev_freeCStream (w_stream w)] else []) @
             post @
             (if w_ctx w \<noteq> 0 then [Ev_freeCCtx (w_ctx w)] else [])"
      "post = [] \<or> (\<exists>c. post = [Ev_getErrorName c])"
      "list_all (in_loop z (w_stream w) (length (w_buffer w))) evs"
      "w_stream w = 0 \<longrightarrow> evs = [] \<and> Ret cerr = Ret None" "w_stream w' = 0"
    by (elim exE conjE) simp
  have ne: "new_events st st' = evs @
             (if w_stream w \<noteq> 0 then [Ev_freeCStream (w_stream w)] else []) @
             post @
             (if w_ctx w \<noteq> 0 then [Ev_freeCCtx (w_ctx w)] else [])"
    using e(1) by (simp add: new_events_def)
  have post: "session_run c post = Some c" "filter is_free post = []" for c
    using e(2) by auto
  show "session_run (w_stream w) (new_events st st') = Some 0"
    using e(3,4) in_loop_session[of "w_stream w" z] post
    by (cases "w_stream w = 0") (auto simp: ne session_run_append)
  show "w_stream w' = 0" by (rule e(5))
  show "filter is_free (new_events st st') =
        (if w_stream w \<noteq> 0 then [Ev_freeCStream (w_stream w)] else [])"
    using in_loop_no_free[OF e(3)] post by (simp add: ne)
next
  assume "Read z src r st q = Some ((r', st'), rres)"
  from Read_session[OF this]
  show "session_run (r_stream r) (new_events st st') = Some (r_stream r')"
    and "filter is_free (new_events st st') = []" by simp_all
next
  assume "Reader_Close z r st = ((r', st'), rerr)"
  note e = Reader_Close_events[OF this]
  have ne: "new_events st st' =
           (if r_stream r \<noteq> 0 then [Ev_freeDStream (r_stream r)] else []) @
           (if r_ctx r \<noteq> 0 then [Ev_freeDCtx (r_ctx r)] else [])"
    using e(4) by (simp add: new_events_def)
  show "session_run (r_stream r) (new_events st st') = Some 0"
    by (simp add: ne)
  show "r_stream r' = 0" by (rule e(2))
  show "filter is_free (new_events st st') =
        (if r_stream r \<noteq> 0 then [Ev_freeDStream (r_stream r)] else [])"
    by (simp add: ne)
qed

text \<open>The theorem on the session of the example program.\<close>

theorem C7_witness:
  "Write toy Buffer_Write (small_Writer []) world0 [1, 2, 3] = Some (sc_written, Ret (3, None)) \<and>
   session_run 0 (new_events world0 (snd sc_written)) = Some (w_stream (fst sc_written)) \<and>
   filter is_free (new_events world0 (snd sc_written)) = [] \<and>
   Flush toy Buffer_Write (fst sc_written) (snd sc_written) = Some (sc_flushed, Ret None) \<and>
   session_run (w_stream (fst sc_written)) (new_events (snd sc_written) (snd sc_flushed)) =
     Some (w_stream (fst sc_flushed)) \<and>
   filter is_free (new_events (snd sc_written) (snd sc_flushed)) = [] \<and>
   Writer_Close toy Buffer_Write (fst sc_more) (snd sc_more) = Some (sc_closed, Ret None) \<and>
   session_run (w_stream (fst sc_more)) (new_events (snd sc_more) (snd sc_closed)) = Some 0 \<and>
   w_stream (fst sc_closed) = 0 \<and>
   filter is_free (new_events (snd sc_more) (snd sc_closed)) = [Ev_freeCStream 1] \<and>
   Read toy Buffer_Read (small_Reader sc_frame) world0 [0, 0] = Some (sc_read, Ret ([1, 2], 2, None)) \<and>
   session_run 0 (new_events world0 (snd sc_read)) = Some (r_stream (fst sc_read)) \<and>
   filter is_free (new_events world0 (snd sc_read)) = [] \<and>
   Reader_Close toy (fst sc_read) (snd sc_read) = (sc_rclosed, None) \<and>
   session_run (r_stream (fst sc_read)) (new_events (snd sc_read) (snd sc_rclosed)) = Some 0 \<and>
   r_stream (fst sc_rclosed) = 0 \<and>
   filter is_free (new_events (snd sc_read) (snd sc_rclosed)) = [Ev_freeDStream 2]"
proof -
  have h1: "w_stream (fst sc_more) = 1" "r_stream (fst sc_read) = 2"
    "w_stream (small_Writer []) = 0" "r_stream (small_Reader sc_frame) = 0" by code_simp+
  note t = C7_session_freed_only_by_Close
  from t[where z = toy and snk = Buffer_Write and w = "small_Writer []" and st = world0 and
      p = "[1, 2, 3]" and w' = "fst sc_written" and st' = "snd sc_written" and
      wres = "Ret (3, None)", THEN conjunct1]
    t[where z = toy and snk = Buffer_Write and w = "fst sc_written" and st = "snd sc_written" and
      w' = "fst sc_flushed" and st' = "snd sc_flushed" and fres = "Ret None",
      THEN conjunct2, THEN conjunct1]
    t[where z = toy and snk = Buffer_Write and w = "fst sc_more" and st = "snd sc_more" and
      w' = "fst sc_closed" and st' = "snd sc_closed" and cerr = None,
      THEN conjunct2, THEN conjunct2, THEN conjunct1]
    t[where z = toy and src = Buffer_Read and r = "small_Reader sc_frame" and st = world0 and
      q = "[0, 0]" and r' = "fst sc_read" and st' = "snd sc_read" and
      rres = "Ret ([1, 2], 2, None)",
      THEN conjunct2, THEN conjunct2, THEN conjunct2, THEN conjunct1]
    t[where z = toy and r = "fst sc_read" and st = "snd sc_read" and
      r' = "fst sc_rclosed" and st' = "snd sc_rclosed" and rerr = None,
      THEN conjunct2, THEN conjunct2, THEN conjunct2, THEN conjunct2]
  show ?thesis
    by (simp add: sc_Write sc_Flush sc_Close sc_Read sc_Reader_Close h1)
qed

text \<open>
  C7 as stated fails: a \<^verbatim>\<open>Write\<close> whose sink fails returns the error and leaves the
  Session allocated (the Writer still holds the handle 1 and no free was called).
\<close>

theorem C7_counterexample:
  "map_option (\<lambda>((w', st'), res). (res, w_stream w', filter is_free (trace st')))
     (Write toy (errorWriter_Write (External ''sink failed'')) (small_Writer ()) world0 [1, 2, 3]) =
   Some (Ret (3, Some (External ''sink failed'')), 1, [])"
  by code_simp

section \<open>After Close\<close>

text \<open>
  C2, as the code has it. No method fails with a "stream closed" error after \<^verbatim>\<open>Close\<close>
  has returned. \<^verbatim>\<open>Flush\<close> returns success and calls nothing; \<^verbatim>\<open>Write\<close> of an empty slice
  returns 0 and no error; \<^verbatim>\<open>Write\<close> of a non-empty slice first creates a new Session and
  fails only if the engine gives none; \<^verbatim>\<open>Read\<close> serves the bytes still staged, reports
  \<^verbatim>\<open>io.EOF\<close> if the stream had ended, and otherwise first creates a new Session. None of
  them hands the freed handle to the engine: the trace of the call keeps to the discipline of
  a Session starting from "none held".
\<close>

lemma Read_loop_creates:
  assumes run: "iterate (Read_body z src) (r, st) = Some ((r', st'), q)"
    and s0: "r_stream r = 0" and c: "r_end r = 0 \<and> \<not> r_streamEnded r"
  shows "(\<exists>evs. trace st' = trace st @ Ev_createDStream (r_stream r') # evs) \<and>
         (r_stream r' = 0 \<longrightarrow>
            q = Some (Ret (0, Some (Errorf ''failed to create decompression stream''))))"
proof -
  obtain st1 ro where es: "ensure_stream z r st = (st1, ro)" by (cases "ensure_stream z r st")
  show ?thesis
  proof (cases ro)
    case None
    with es c have "Read_body z src (r, st) =
        Stop ((r, st1), Some (Ret (0, Some (Errorf ''failed to create decompression stream''))))"
      by (simp add: Read_body_def)
    from iterate_Stop[of "Read_body z src" "(r, st)", OF this] run
    have "r' = r" "st' = st1"
      "q = Some (Ret (0, Some (Errorf ''failed to create decompression stream'')))"
      by simp_all
    with ensure_stream_props(2)[OF es] None s0 show ?thesis by simp
  next
    case (Some r1)
    from ensure_stream_props(2)[OF es] Some s0 have
      r1: "r_stream r1 \<noteq> 0" "trace st1 = trace st @ [Ev_createDStream (r_stream r1)]"
      by simp_all
    show ?thesis
    proof (cases "Read_body z src (r, st)")
      case (Stop x)
      from iterate_Stop[of "Read_body z src" "(r, st)", OF this] run
      have x: "x = ((r', st'), q)" by simp
      from Read_body_frame[OF es[unfolded Some] disjI2 c, of src "(r', st')" q] Stop x
      have "r_frame z (r1, st1) (r', st')" by simp
      with r1 show ?thesis by (auto simp: r_frame_def)
    next
      case (Next s1)
      from Read_body_frame[OF es[unfolded Some] disjI1 c, of src s1] Next
      have f: "r_frame z (r1, st1) s1" by simp
      obtain a b where s1: "s1 = (a, b)" by (cases s1)
      from iterate_Next[of "Read_body z src" "(r, st)" s1] Next run
      have "iterate (Read_body z src) s1 = Some ((r', st'), q)" by simp
      from Read_loop_track[OF this] f r1 s1 show ?thesis
        by (auto simp: r_frame_def r_track_def)
    qed
  qed
qed

theorem C2_after_Close:
  "(Writer_Close z snk w0 st0 = Some ((w, st1), Ret cerr) \<longrightarrow>
      Flush z snk w st = Some ((w, st), Ret None) \<and>
      Write z snk w st [] = Some ((w, st), Ret (0, None)) \<and>
      (p \<noteq> [] \<and> Write z snk w st p = Some ((w', st'), wres) \<longrightarrow>
         (\<exists>evs. new_events st st' = Ev_createCStream (w_stream w') # evs) \<and>
         session_run 0 (new_events st st') = Some (w_stream w') \<and>
         (w_stream w' = 0 \<longrightarrow>
            wres = Ret (0, Some (Errorf ''failed to create compression stream''))))) \<and>
   (Reader_Close z r0 st0 = ((r, st1), rerr) \<and> Read z src r st q = Some ((r', st'), rres) \<longrightarrow>
      session_run 0 (new_events st st') = Some (r_stream r') \<and>
      (r_pos r < r_end r \<longrightarrow> (r', st', rres) = (fst (fst (serve r st q)), st, snd (serve r st q))) \<and>
      (\<not> r_pos r < r_end r \<and> r_streamEnded r \<longrightarrow>
         (r', st', rres) = (r, st, Ret (q, 0, Some EOF))) \<and>
      (\<not> r_pos r < r_end r \<and> \<not> r_streamEnded r \<longrightarrow>
         (\<exists>evs. new_events st st' = Ev_createDStream (r_stream r') # evs) \<and>
         (r_stream r' = 0 \<longrightarrow>
            rres = Ret (q, 0, Some (Errorf ''failed to create decompression stream'')))))"
proof (intro conjI impI)
  assume "Writer_Close z snk w0 st0 = Some ((w, st1), Ret cerr)"
  from Writer_Close_events[OF this] have s0: "w_stream w = 0" by auto
  show "Flush z snk w st = Some ((w, st), Ret None)" using s0 by (rule Flush_closed)
  show "Write z snk w st [] = Some ((w, st), Ret (0, None))" by (rule Write_empty)
  {
    assume "p \<noteq> [] \<and> Write z snk w st p = Some ((w', st'), wres)"
    then have p: "p \<noteq> []" and run: "Write z snk w st p = Some ((w', st'), wres)" by simp_all
    from Write_events[OF run p] s0 show "\<exists>evs. new_events st st' = Ev_createCStream (w_stream w') # evs"
      by (auto simp: new_events_def)
    from Write_session[OF run] s0 show "session_run 0 (new_events st st') = Some (w_stream w')"
      by simp
    {
      assume z: "w_stream w' = 0"
      obtain w1 st1 where o: "open_stream z w st = (w1, st1)" by (cases "open_stream z w st")
      from Write_cases[OF run p o] z Write_loop_frame[where z = z and snk = snk]
      show "wres = Ret (0, Some (Errorf ''failed to create compression stream''))"
        by (auto simp: w_frame_def)
    }
  }
next
  assume a: "Reader_Close z r0 st0 = ((r, st1), rerr) \<and> Read z src r st q = Some ((r', st'), rres)"
  then have cl: "Reader_Close z r0 st0 = ((r, st1), rerr)"
    and run: "Read z src r st q = Some ((r', st'), rres)" by simp_all
  from Reader_Close_events[OF cl] have s0: "r_stream r = 0" by simp
  from Read_session[OF run] s0 show "session_run 0 (new_events st st') = Some (r_stream r')"
    by simp
  {
    assume "r_pos r < r_end r"
    with run show "(r', st', rres) = (fst (fst (serve r st q)), st, snd (serve r st q))"
      using serve_props(1)[of r st q r' st' rres] by (auto simp: Read_def)
  }
  {
    assume "\<not> r_pos r < r_end r \<and> r_streamEnded r"
    with run show "(r', st', rres) = (r, st, Ret (q, 0, Some EOF))" by (auto simp: Read_def)
  }
  {
    assume c: "\<not> r_pos r < r_end r \<and> \<not> r_streamEnded r"
    with Read_cases[OF run] obtain r1 st2 x where
      it: "iterate (Read_body z src) (r\<lparr>r_pos := 0, r_end := 0\<rparr>, st) = Some ((r1, st2), x)"
      and x: "case x of
                Some Panic \<Rightarrow> r' = r1 \<and> st' = st2 \<and> rres = Panic
              | Some (Ret (n, err)) \<Rightarrow> r' = r1 \<and> st' = st2 \<and> rres = Ret (q, n, err)
              | None \<Rightarrow>
                  if r_end r1 = 0
                  then r' = r1 \<and> st' = st2 \<and>
                       rres = Ret (q, 0, if r_streamEnded r1 then Some EOF else None)
                  else serve r1 st2 q = ((r', st'), rres)"
      by auto
    have same: "st' = st2 \<and> r_stream r' = r_stream r1"
      using x serve_props[of r1 st2 q r' st' rres]
      by (auto split: option.splits ret.splits if_splits)
    from Read_loop_creates[OF it] s0 c same
    show "\<exists>evs. new_events st st' = Ev_createDStream (r_stream r') # evs"
      by (auto simp: new_events_def)
    {
      assume z: "r_stream r' = 0"
      from Read_loop_creates[OF it] s0 c same z x
      show "rres = Ret (q, 0, Some (Errorf ''failed to create decompression stream''))"
        by auto
    }
  }
qed

text \<open>The theorem on the session of the example program.\<close>

theorem C2_witness:
  "Writer_Close toy Buffer_Write (fst sc_more) (snd sc_more) = Some (sc_closed, Ret None) \<and>
   Flush toy Buffer_Write (fst sc_closed) (snd sc_closed) = Some (sc_closed, Ret None) \<and>
   Write toy Buffer_Write (fst sc_closed) (snd sc_closed) [] = Some (sc_closed, Ret (0, None)) \<and>
   Write toy Buffer_Write (fst sc_closed) (snd sc_closed) [6] = Some (sc_rewritten, Ret (1, None)) \<and>
   (\<exists>evs. new_events (snd sc_closed) (snd sc_rewritten) =
      Ev_createCStream (w_stream (fst sc_rewritten)) # evs) \<and>
   session_run 0 (new_events (snd sc_closed) (snd sc_rewritten)) = Some (w_stream (fst sc_rewritten)) \<and>
   Reader_Close toy (fst sc_read) (snd sc_read) = (sc_rclosed, None) \<and>
   Read toy Buffer_Read (fst sc_rclosed) (snd sc_rclosed) [0, 0] =
     Some (sc_reread, Ret ([3, 4], 2, None)) \<and>
   session_run 0 (new_events (snd sc_rclosed) (snd sc_reread)) = Some (r_stream (fst sc_reread)) \<and>
   (\<exists>evs. new_events (snd sc_rclosed) (snd sc_reread) =
      Ev_createDStream (r_stream (fst sc_reread)) # evs)"
proof -
  have h: "\<not> r_pos (fst sc_rclosed) < r_end (fst sc_rclosed)"
    "\<not> r_streamEnded (fst sc_rclosed)" by code_simp+
  from C2_after_Close[where z = toy and snk = Buffer_Write and ?w0.0 = "fst sc_more" and
      ?st0.0 = "snd sc_more" and w = "fst sc_closed" and ?st1.0 = "snd sc_closed" and
      cerr = None and st = "snd sc_closed" and p = "[6]" and w' = "fst sc_rewritten" and
      st' = "snd sc_rewritten" and wres = "Ret (1, None)", THEN conjunct1]
    C2_after_Close[where z = toy and src = Buffer_Read and ?r0.0 = "fst sc_read" and
      ?st0.0 = "snd sc_read" and r = "fst sc_rclosed" and ?st1.0 = "snd sc_rclosed" and
      rerr = None and st = "snd sc_rclosed" and q = "[0, 0]" and r' = "fst sc_reread" and
      st' = "snd sc_reread" and rres = "Ret ([3, 4], 2, None)", THEN conjunct2] h
  show ?thesis
    by (simp add: sc_Close sc_Write3 sc_Reader_Close sc_Read2)
qed

text \<open>
  C2 as stated fails: after \<^verbatim>\<open>Close\<close> has returned, \<^verbatim>\<open>Flush\<close> and \<^verbatim>\<open>Write\<close> on the
  Writer and \<^verbatim>\<open>Read\<close> on the Reader succeed.
\<close>

theorem C2_counterexample:
  "Writer_Close toy Buffer_Write (fst sc_more) (snd sc_more) = Some (sc_closed, Ret None) \<and>
   Flush toy Buffer_Write (fst sc_closed) (snd sc_closed) = Some (sc_closed, Ret None) \<and>
   Write toy Buffer_Write (fst sc_closed) (snd sc_closed) [6] = Some (sc_rewritten, Ret (1, None)) \<and>
   Reader_Close toy (fst sc_read) (snd sc_read) = (sc_rclosed, None) \<and>
   Read toy Buffer_Read (fst sc_rclosed) (snd sc_rclosed) [0, 0] =
     Some (sc_reread, Ret ([3, 4], 2, None))"
  by code_simp

section \<open>Closing twice, closing what was never opened\<close>

text \<open>
  C5, as the code has it. \<^verbatim>\<open>Close\<close> on a Writer or Reader that was closed before returns
  success and makes no call at all. \<^verbatim>\<open>Close\<close> on one that was never written to or read
  from returns success and makes no call on a stream; it frees the context that the
  constructor created, which is one native call, unless the engine gave no context.
\<close>

theorem C5_close_again:
  "(Writer_Close z snk w st = Some ((w', st'), Ret cerr) \<longrightarrow>
      Writer_Close z snk w' st2 = Some ((w', st2), Ret None)) \<and>
   (Reader_Close z r st = ((r', st'), rerr) \<longrightarrow>
      rerr = None \<and> Reader_Close z r' st2 = ((r', st2), None)) \<and>
   (NewWriter z st k level = (st1, wn) \<longrightarrow>
      (\<exists>wn' stn. Writer_Close z snk wn st2 = Some ((wn', stn), Ret None) \<and>
         new_events st2 stn = (if w_ctx wn \<noteq> 0 then [Ev_freeCCtx (w_ctx wn)] else []))) \<and>
   (NewReader z st s = (st1, rn) \<longrightarrow>
      (\<exists>rn' stn. Reader_Close z rn st2 = ((rn', stn), None) \<and>
         new_events st2 stn = (if r_ctx rn \<noteq> 0 then [Ev_freeDCtx (r_ctx rn)] else [])))"
proof (intro conjI impI)
  assume "Writer_Close z snk w st = Some ((w', st'), Ret cerr)"
  from Writer_Close_events[OF this] have "w_stream w' = 0" "w_ctx w' = 0" by auto
  then show "Writer_Close z snk w' st2 = Some ((w', st2), Ret None)"
    by (simp add: Writer_Close_closed release_ctx_def)
next
  assume c: "Reader_Close z r st = ((r', st'), rerr)"
  from Reader_Close_events[OF c] show "rerr = None" by simp
  from Reader_Close_events[OF c] have "r_stream r' = 0" "r_ctx r' = 0" by simp_all
  then show "Reader_Close z r' st2 = ((r', st2), None)"
    by (simp add: Reader_Close_def)
next
  assume "NewWriter z st k level = (st1, wn)"
  then have s0: "w_stream wn = 0"
    by (auto simp: NewWriter_def Let_def split: prod.splits)
  obtain wn' stn where rc: "release_ctx z (wn, st2) = (wn', stn)"
    by (cases "release_ctx z (wn, st2)")
  from release_ctx_props(4)[OF rc] s0 rc
  show "\<exists>wn' stn. Writer_Close z snk wn st2 = Some ((wn', stn), Ret None) \<and>
         new_events st2 stn = (if w_ctx wn \<noteq> 0 then [Ev_freeCCtx (w_ctx wn)] else [])"
    by (simp add: Writer_Close_closed new_events_def)
next
  assume "NewReader z st s = (st1, rn)"
  then have s0: "r_stream rn = 0"
    by (auto simp: NewReader_def Let_def split: prod.splits)
  obtain rn' stn e where rc: "Reader_Close z rn st2 = ((rn', stn), e)"
    by (metis surj_pair)
  from Reader_Close_events[OF rc] s0 rc
  show "\<exists>rn' stn. Reader_Close z rn st2 = ((rn', stn), None) \<and>
         new_events st2 stn = (if r_ctx rn \<noteq> 0 then [Ev_freeDCtx (r_ctx rn)] else [])"
    by (simp add: new_events_def)
qed

text \<open>The theorem on the session of the example program.\<close>

theorem C5_witness:
  "Writer_Close toy Buffer_Write (fst sc_more) (snd sc_more) = Some (sc_closed, Ret None) \<and>
   Writer_Close toy Buffer_Write (fst sc_closed) (snd sc_closed) = Some (sc_closed, Ret None) \<and>
   Reader_Close toy (fst sc_read) (snd sc_read) = (sc_rclosed, None) \<and>
   Reader_Close toy (fst sc_rclosed) (snd sc_rclosed) = (sc_rclosed, None) \<and>
   (\<exists>wn' stn. Writer_Close toy Buffer_Write (snd sc_fresh_Writer) (fst sc_fresh_Writer) =
        Some ((wn', stn), Ret None) \<and>
      new_events (fst sc_fresh_Writer) stn = [Ev_freeCCtx 3]) \<and>
   (\<exists>rn' stn. Reader_Close toy (snd sc_fresh_Reader) (fst sc_fresh_Reader) = ((rn', stn), None) \<and>
      new_events (fst sc_fresh_Reader) stn = [Ev_freeDCtx 4])"
proof -
  have c: "w_ctx (snd sc_fresh_Writer) = 3" "r_ctx (snd sc_fresh_Reader) = 4"
    by (simp_all add: sc_fresh_Writer_def sc_fresh_Reader_def NewWriter_def NewReader_def toy_def)
  note t = C5_close_again
  from t[where z = toy and snk = Buffer_Write and w = "fst sc_more" and st = "snd sc_more" and
      w' = "fst sc_closed" and st' = "snd sc_closed" and cerr = None and ?st2.0 = "snd sc_closed",
      THEN conjunct1]
    t[where z = toy and r = "fst sc_read" and st = "snd sc_read" and
      r' = "fst sc_rclosed" and st' = "snd sc_rclosed" and rerr = None and
      ?st2.0 = "snd sc_rclosed", THEN conjunct2, THEN conjunct1]
    t[where z = toy and snk = Buffer_Write and st = world0 and k = "[]" and level = 3 and
      ?st1.0 = "fst sc_fresh_Writer" and wn = "snd sc_fresh_Writer" and
      ?st2.0 = "fst sc_fresh_Writer", THEN conjunct2, THEN conjunct2, THEN conjunct1]
    t[where z = toy and st = world0 and s = "[]" and
      ?st1.0 = "fst sc_fresh_Reader" and rn = "snd sc_fresh_Reader" and
      ?st2.0 = "fst sc_fresh_Reader", THEN conjunct2, THEN conjunct2, THEN conjunct2]
  show ?thesis
    by (simp add: sc_Close sc_Reader_Close c sc_fresh_Writer_def[symmetric]
        sc_fresh_Reader_def[symmetric])
qed

text \<open>
  C5 as stated fails: closing a Writer or a Reader fresh from its constructor calls
  \<^verbatim>\<open>freeCCtx\<close> or \<^verbatim>\<open>freeDCtx\<close>.
\<close>

theorem C5_counterexample:
  "(case sc_fresh_Writer of (st, w) \<Rightarrow>
      map_option (\<lambda>((w', st'), res). (res, filter is_native (new_events st st')))
        (Writer_Close toy Buffer_Write w st)) = Some (Ret None, [Ev_freeCCtx 3]) \<and>
   (case sc_fresh_Reader of (st, r) \<Rightarrow>
      (\<lambda>((r', st'), res). (res, filter is_native (new_events st st')))
        (Reader_Close toy r st)) = (None, [Ev_freeDCtx 4])"
  by (simp add: sc_fresh_Writer_def sc_fresh_Reader_def NewWriter_def NewReader_def toy_def
      Writer_Close_def Reader_Close_def release_ctx_def log_def new_events_def world0_def)

section \<open>The output cursor at every step\<close>

lemma in_loop_cursor_ok:
  assumes "respects_capacity z" and "list_all (in_loop z h cap) evs"
  shows "list_all (cursor_ok cap) evs"
  using assms(2)
proof (induction evs)
  case Nil
  then show ?case by simp
next
  case (Cons ev evs)
  then show ?case using assms(1)
    by (cases ev) (auto simp: respects_capacity_def)
qed

lemma toy_respects_capacity: "respects_capacity toy"
  by (auto simp: respects_capacity_def toy_def toy_compressStream2_def toy_decompressStream_def
      Let_def split: prod.splits)

text \<open>
  C9. In the loops of \<^verbatim>\<open>Write\<close>, \<^verbatim>\<open>Flush\<close>, \<^verbatim>\<open>Close\<close> and \<^verbatim>\<open>Read\<close>, every step of the
  engine is called with the output position 0 and the capacity of the staging buffer, and,
  the engine respecting the capacity it is given, the position it leaves is within that
  capacity.
\<close>

theorem C9_output_cursor:
  assumes "respects_capacity z"
  shows "(Write z snk w st p = Some ((w', st'), wres) \<longrightarrow>
           list_all (cursor_ok (length (w_buffer w))) (new_events st st')) \<and>
         (Flush z snk w st = Some ((w', st'), fres) \<longrightarrow>
           list_all (cursor_ok (length (w_buffer w))) (new_events st st')) \<and>
         (Writer_Close z snk w st = Some ((w', st'), cres) \<longrightarrow>
           list_all (cursor_ok (length (w_buffer w))) (new_events st st')) \<and>
         (Read z src r st q = Some ((r', st'), rres) \<longrightarrow>
           list_all (cursor_ok (length (r_readBuffer r'))) (new_events st st'))"
proof (intro conjI impI)
  assume run: "Write z snk w st p = Some ((w', st'), wres)"
  show "list_all (cursor_ok (length (w_buffer w))) (new_events st st')"
  proof (cases "p = []")
    case True
    with run show ?thesis by (simp add: Write_empty new_events_def)
  next
    case False
    from Write_events[OF run False] obtain evs where
      e: "trace st' = trace st @
            (if w_stream w = 0 then [Ev_createCStream (w_stream w')] else []) @ evs"
         "list_all (in_loop z (w_stream w') (length (w_buffer w))) evs"
      by (elim exE conjE)
    from in_loop_cursor_ok[OF assms e(2)] e(1) show ?thesis
      by (simp add: new_events_def)
  qed
next
  assume "Flush z snk w st = Some ((w', st'), fres)"
  from Flush_events[OF this] in_loop_cursor_ok[OF assms]
  show "list_all (cursor_ok (length (w_buffer w))) (new_events st st')" by blast
next
  assume "Writer_Close z snk w st = Some ((w', st'), cres)"
  from Writer_Close_events[OF this] obtain evs post where
    e: "trace st' = trace st @ evs @
             (if cres \<noteq> Panic \<and> w_stream w \<noteq> 0 then [Ev_freeCStream (w_stream w)] else []) @
             post @
             (if w_ctx w \<noteq> 0 then [Ev_freeCCtx (w_ctx w)] else [])"
      "post = [] \<or> (\<exists>c. post = [Ev_getErrorName c])"
      "list_all (in_loop z (w_stream w) (length (w_buffer w))) evs"
    by (elim exE conjE)
  have post: "list_all (cursor_ok (length (w_buffer w))) post"
    using e(2) by auto
  from in_loop_cursor_ok[OF assms e(3)] e(1) post
  show "list_all (cursor_ok (length (w_buffer w))) (new_events st st')"
    by (simp add: new_events_def)
next
  assume "Read z src r st q = Some ((r', st'), rres)"
  from Read_events[OF this] obtain pre evs where
    e: "trace st' = trace st @ pre @ evs"
      "(pre = [] \<and> r_stream r' = r_stream r) \<or>
       (r_stream r = 0 \<and> pre = [Ev_createDStream (r_stream r')])"
      "list_all (in_loop z (r_stream r') (length (r_readBuffer r'))) evs"
    by (elim exE conjE)
  from in_loop_cursor_ok[OF assms e(3)] e(1,2)
  show "list_all (cursor_ok (length (r_readBuffer r'))) (new_events st st')"
    by (auto simp: new_events_def)
qed

text \<open>The theorem on the session of the example program.\<close>

theorem C9_witness:
  "respects_capacity toy \<and>
   Write toy Buffer_Write (small_Writer []) world0 [1, 2, 3] = Some (sc_written, Ret (3, None)) \<and>
   list_all (cursor_ok 4) (new_events world0 (snd sc_written)) \<and>
   Flush toy Buffer_Write (fst sc_written) (snd sc_written) = Some (sc_flushed, Ret None) \<and>
   list_all (cursor_ok 4) (new_events (snd sc_written) (snd sc_flushed)) \<and>
   Writer_Close toy Buffer_Write (fst sc_more) (snd sc_more) = Some (sc_closed, Ret None) \<and>
   list_all (cursor_ok 4) (new_events (snd sc_more) (snd sc_closed)) \<and>
   Read toy Buffer_Read (small_Reader sc_frame) world0 [0, 0] = Some (sc_read, Ret ([1, 2], 2, None)) \<and>
   list_all (cursor_ok 4) (new_events world0 (snd sc_read))"
proof -
  have h: "length (w_buffer (fst sc_written)) = 4" "length (w_buffer (fst sc_more)) = 4"
    "length (r_readBuffer (fst sc_read)) = 4" "length (w_buffer (small_Writer [])) = 4"
    by code_simp+
  note t = C9_output_cursor[OF toy_respects_capacity]
  from t[where snk = Buffer_Write and w = "small_Writer []" and st = world0 and
      p = "[1, 2, 3]" and w' = "fst sc_written" and st' = "snd sc_written" and
      wres = "Ret (3, None)", THEN conjunct1]
    t[where snk = Buffer_Write and w = "fst sc_written" and st = "snd sc_written" and
      w' = "fst sc_flushed" and st' = "snd sc_flushed" and fres = "Ret None",
      THEN conjunct2, THEN conjunct1]
    t[where snk = Buffer_Write and w = "fst sc_more" and st = "snd sc_more" and
      w' = "fst sc_closed" and st' = "snd sc_closed" and cres = "Ret None",
      THEN conjunct2, THEN conjunct2, THEN conjunct1]
    t[where src = Buffer_Read and r = "small_Reader sc_frame" and st = world0 and
      q = "[0, 0]" and r' = "fst sc_read" and st' = "snd sc_read" and
      rres = "Ret ([1, 2], 2, None)",
      THEN conjunct2, THEN conjunct2, THEN conjunct2]
  show ?thesis
    by (simp add: toy_respects_capacity sc_Write sc_Flush sc_Close sc_Read h)
qed

section \<open>The count that Write returns\<close>

lemma pos_after_append: "pos_after (xs @ ys) pos = pos_after ys (pos_after xs pos)"
  by (induction xs pos rule: pos_after.induct) auto

lemma forward_trace:
  assumes "forward snk w st = Ret (w2, st2, err)"
  shows "\<exists>evs. trace st2 = trace st @ evs \<and> pos_after evs pos = pos \<and>
           (err = None \<longrightarrow> list_all sink_ok evs)"
  using assms
  by (auto simp: forward_def Let_def log_def split: prod.splits if_splits option.splits)

lemma Write_body_progress:
  assumes "Write_body z snk (w, st) = X"
  shows "case X of
           Next (w', st') \<Rightarrow>
             in_Size (w_inBuffer w') = in_Size (w_inBuffer w) \<and>
             (\<exists>evs. trace st' = trace st @ evs \<and>
                in_Pos (w_inBuffer w') = pos_after evs (in_Pos (w_inBuffer w)) \<and>
                list_all sink_ok evs)
         | Stop ((w', st'), r) \<Rightarrow>
             in_Size (w_inBuffer w') = in_Size (w_inBuffer w) \<and>
             (\<exists>evs. trace st' = trace st @ evs \<and>
                in_Pos (w_inBuffer w') = pos_after evs (in_Pos (w_inBuffer w)) \<and>
                (case r of
                   None \<Rightarrow> evs = [] \<and> \<not> in_Pos (w_inBuffer w') < in_Size (w_inBuffer w')
                 | Some Panic \<Rightarrow> True
                 | Some (Ret (n, e)) \<Rightarrow>
                     e \<noteq> None \<and> n = int_of_uint64 (in_Pos (w_inBuffer w'))))"
proof -
  obtain rep w1 st1 where cs: "compress_step z EndContinue w st = (rep, w1, st1)"
    by (cases "compress_step z EndContinue w st") auto
  note p = compress_step_props[OF cs]
  have w1: "in_Size (w_inBuffer w1) = in_Size (w_inBuffer w)" "in_Pos (w_inBuffer w1) = new_in_Pos rep"
    by (simp_all add: p(1))
  show ?thesis
  proof (cases "\<not> in_Pos (w_inBuffer w) < in_Size (w_inBuffer w) \<or> w_buffer w = []")
    case True
    with assms show ?thesis by (auto simp: Write_body_def)
  next
    case False
    show ?thesis
    proof (cases "isError z (hint rep) \<noteq> 0")
      case True
      with assms False cs p(2) w1 show ?thesis
        by (auto simp: Write_body_def log_def)
    next
      case ok: False
      show ?thesis
      proof (cases "forward snk w1 st1")
        case Panic
        with assms False cs ok p(2) w1 show ?thesis
          by (auto simp: Write_body_def)
      next
        case (Ret y)
        obtain w2 st2 err where y: "y = (w2, st2, err)" by (cases y)
        from forward_trace[OF Ret[unfolded y], of "new_in_Pos rep"] obtain evs where
          e: "trace st2 = trace st1 @ evs" "pos_after evs (new_in_Pos rep) = new_in_Pos rep"
          "err = None \<longrightarrow> list_all sink_ok evs" by auto
        note fp = forward_props[OF Ret[unfolded y]]
        from assms False cs ok Ret y have X:
          "X = (case err of Some e \<Rightarrow>
                   Stop ((w2, st2), Some (Ret (int_of_uint64 (in_Pos (w_inBuffer w2)), Some e)))
                | None \<Rightarrow> Next (w2, st2))"
          by (auto simp: Write_body_def split: option.splits)
        show ?thesis
          using X e p(2) w1 fp(5)
          by (auto split: option.splits simp: pos_after_append)
      qed
    qed
  qed
qed

lemma Write_loop_progress:
  assumes run: "iterate (Write_body z snk) (w, st) = Some ((w', st'), r)"
  shows "in_Size (w_inBuffer w') = in_Size (w_inBuffer w) \<and>
         (\<exists>evs. trace st' = trace st @ evs \<and>
            in_Pos (w_inBuffer w') = pos_after evs (in_Pos (w_inBuffer w)) \<and>
            (case r of
               None \<Rightarrow> list_all sink_ok evs \<and> \<not> in_Pos (w_inBuffer w') < in_Size (w_inBuffer w')
             | Some Panic \<Rightarrow> True
             | Some (Ret (n, e)) \<Rightarrow> e \<noteq> None \<and> n = int_of_uint64 (in_Pos (w_inBuffer w'))))"
proof -
  let ?I = "\<lambda>(w1, st1). in_Size (w_inBuffer w1) = in_Size (w_inBuffer w) \<and>
         (\<exists>evs. trace st1 = trace st @ evs \<and>
            in_Pos (w_inBuffer w1) = pos_after evs (in_Pos (w_inBuffer w)) \<and>
            list_all sink_ok evs)"
  let ?Q = "\<lambda>((w', st'), r). in_Size (w_inBuffer w') = in_Size (w_inBuffer w) \<and>
         (\<exists>evs. trace st' = trace st @ evs \<and>
            in_Pos (w_inBuffer w') = pos_after evs (in_Pos (w_inBuffer w)) \<and>
            (case r of
               None \<Rightarrow> list_all sink_ok evs \<and> \<not> in_Pos (w_inBuffer w') < in_Size (w_inBuffer w')
             | Some Panic \<Rightarrow> True
             | Some (Ret (n, e)) \<Rightarrow> e \<noteq> None \<and> n = int_of_uint64 (in_Pos (w_inBuffer w'))))"
  have "?Q ((w', st'), r)"
  proof (rule iterate_rule[OF run, where I = ?I])
    show "?I (w, st)" by simp
  next
    fix a a' assume i: "?I a" and b: "Write_body z snk a = Next a'"
    obtain w1 st1 where a: "a = (w1, st1)" by (cases a)
    obtain w2 st2 where a': "a' = (w2, st2)" by (cases a')
    from Write_body_progress[OF b[unfolded a]] a' i a
    show "?I a'" by (auto simp: pos_after_append)
  next
    fix a x assume i: "?I a" and b: "Write_body z snk a = Stop x"
    obtain w1 st1 where a: "a = (w1, st1)" by (cases a)
    obtain w2 st2 q where x: "x = ((w2, st2), q)" by (cases x) auto
    from Write_body_progress[OF b[unfolded a]] x i a
    show "?Q x"
      by (auto simp: pos_after_append split: option.splits ret.splits)
  qed
  then show ?thesis by simp
qed

lemma forwarded_append: "forwarded (xs @ ys) = forwarded xs @ forwarded ys"
  by (induction xs rule: forwarded.induct) auto

lemma produced_append: "produced (xs @ ys) = produced xs @ produced ys"
  by (induction xs rule: produced.induct) auto

lemma forward_forwarded:
  assumes "forward snk w st = Ret (w2, st2, None)"
    and "w_buffer w = overlay ws buf" and "out_Pos (w_outBuffer w) = length ws"
  shows "\<exists>evs. trace st2 = trace st @ evs \<and> forwarded evs = ws \<and> produced evs = []"
proof (cases "ws = []")
  case True
  with assms show ?thesis by (simp add: forward_def)
next
  case False
  with assms obtain chunk where c: "go_slice (overlay ws buf) 0 (int (length ws)) = Some chunk"
    and t: "trace st2 = trace st @ [Ev_sink_Write chunk None]"
    by (auto simp: forward_def log_def split: option.splits prod.splits)
  from c have "chunk = ws"
    by (auto simp: go_slice_def overlay_def split: if_splits)
  with t show ?thesis by simp
qed

lemma Write_body_forwards:
  assumes "Write_body z snk (w, st) = Next (w', st')"
  shows "\<exists>evs. trace st' = trace st @ evs \<and> forwarded evs = produced evs"
proof -
  obtain rep w1 st1 where cs: "compress_step z EndContinue w st = (rep, w1, st1)"
    by (cases "compress_step z EndContinue w st") auto
  note p = compress_step_props[OF cs]
  from assms cs have f: "forward snk w1 st1 = Ret (w', st', None)"
    by (auto simp: Write_body_def split: if_splits ret.splits option.splits)
  have "w_buffer w1 = overlay (written rep) (w_buffer w)"
    "out_Pos (w_outBuffer w1) = length (written rep)"
    by (simp_all add: p(1))
  from forward_forwarded[OF f this] obtain evs where
    e: "trace st' = trace st1 @ evs" "forwarded evs = written rep" "produced evs = []" by auto
  show ?thesis
    by (rule exI[of _ "[Ev_compressStream2 (w_stream w)
            \<lparr>out_Size = length (w_buffer w), out_Pos = 0\<rparr> (w_inBuffer w) EndContinue rep,
          Ev_isError (hint rep)] @ evs"])
      (simp add: e p(2) forwarded_append produced_append)
qed

lemma Write_body_left:
  assumes "Write_body z snk (w, st) = Stop ((w', st'), None)"
  shows "st' = st"
proof -
  obtain rep w1 st1 where cs: "compress_step z EndContinue w st = (rep, w1, st1)"
    by (cases "compress_step z EndContinue w st") auto
  from assms cs show ?thesis
    by (auto simp: Write_body_def split: if_splits ret.splits option.splits)
qed

lemma Write_loop_forwards:
  assumes run: "iterate (Write_body z snk) (w, st) = Some ((w', st'), r)"
  shows "r = None \<longrightarrow> (\<exists>evs. trace st' = trace st @ evs \<and> forwarded evs = produced evs)"
proof -
  let ?I = "\<lambda>(w1, st1). \<exists>evs. trace st1 = trace st @ evs \<and> forwarded evs = produced evs"
  let ?Q = "\<lambda>((w', st'), r). r = None \<longrightarrow>
              (\<exists>evs. trace st' = trace st @ evs \<and> forwarded evs = produced evs)"
  have "?Q ((w', st'), r)"
  proof (rule iterate_rule[OF run, where I = ?I])
    show "?I (w, st)" by simp
  next
    fix a a' assume i: "?I a" and b: "Write_body z snk a = Next a'"
    obtain w1 st1 where a: "a = (w1, st1)" by (cases a)
    obtain w2 st2 where a': "a' = (w2, st2)" by (cases a')
    from i a obtain evs where e: "trace st1 = trace st @ evs" "forwarded evs = produced evs"
      by auto
    from Write_body_forwards[OF b[unfolded a a']] obtain evs' where
      e': "trace st2 = trace st1 @ evs'" "forwarded evs' = produced evs'" by auto
    have "trace st2 = trace st @ (evs @ evs') \<and> forwarded (evs @ evs') = produced (evs @ evs')"
      using e e' by (simp add: forwarded_append produced_append)
    then show "?I a'" unfolding a' by blast
  next
    fix a x assume i: "?I a" and b: "Write_body z snk a = Stop x"
    obtain w1 st1 where a: "a = (w1, st1)" by (cases a)
    obtain w2 st2 q where x: "x = ((w2, st2), q)" by (cases x) auto
    show "?Q x"
    proof (cases q)
      case None
      from Write_body_left[OF b[unfolded a x None]] i a x None show ?thesis by auto
    next
      case (Some y)
      with x show ?thesis by simp
    qed
  qed
  then show ?thesis by simp
qed

lemma sc_Write_failed:
  "Write toy (errorWriter_Write (External ''sink failed'')) (small_Writer ()) world0 [1, 2, 3] =
   Some (sc_failed, Ret (3, Some (External ''sink failed'')))"
  by code_simp

lemma sc_Write_forwarded: "forwarded (new_events world0 (snd sc_written)) = [1, 1, 1, 2]"
  by code_simp

text \<open>
  C3, as the code has it. \<^verbatim>\<open>Write\<close> of a non-empty slice returns \<^verbatim>\<open>len(bytes)\<close> and no
  error once the input cursor of the engine has reached the end of the slice, every chunk
  the engine produced on the way having been accepted by the sink: no write on the sink
  failed, and the bytes the sink accepted are the bytes the steps produced. When it returns
  an error, the count is 0 if no Session could be created, and otherwise the position of the
  engine's input cursor: the number of input bytes the engine has consumed, whether or not
  their compressed form has reached the sink.
\<close>

theorem C3_Write_count:
  "p \<noteq> [] \<and> Write z snk w st p = Some ((w', st'), Ret (n, err)) \<longrightarrow>
     (err = None \<longrightarrow>
        n = int (length p) \<and> \<not> in_Pos (w_inBuffer w') < length p \<and>
        list_all sink_ok (new_events st st') \<and>
        forwarded (new_events st st') = produced (new_events st st')) \<and>
     (err \<noteq> None \<longrightarrow>
        (if w_stream w' = 0 then n = 0
         else n = int_of_uint64 (in_Pos (w_inBuffer w')) \<and>
              in_Pos (w_inBuffer w') = pos_after (new_events st st') 0))"
proof (intro impI, elim conjE)
  assume p: "p \<noteq> []" and run: "Write z snk w st p = Some ((w', st'), Ret (n, err))"
  obtain w1 st1 where o: "open_stream z w st = (w1, st1)" by (cases "open_stream z w st")
  note o1 = open_stream_props[OF o]
  let ?w2 = "w1\<lparr>w_inBuffer := \<lparr>in_Src = p, in_Size = length p, in_Pos = 0\<rparr>\<rparr>"
  from Write_cases[OF run p o]
  show "(err = None \<longrightarrow>
        n = int (length p) \<and> \<not> in_Pos (w_inBuffer w') < length p \<and>
        list_all sink_ok (new_events st st') \<and>
        forwarded (new_events st st') = produced (new_events st st')) \<and>
     (err \<noteq> None \<longrightarrow>
        (if w_stream w' = 0 then n = 0
         else n = int_of_uint64 (in_Pos (w_inBuffer w')) \<and>
              in_Pos (w_inBuffer w') = pos_after (new_events st st') 0))"
  proof (elim disjE conjE exE)
    assume "w_stream w1 = 0" "w' = w1"
      "Ret (n, err) = Ret (0, Some (Errorf ''failed to create compression stream''))"
    then show ?thesis by auto
  next
    fix r
    assume ne: "w_stream w1 \<noteq> 0"
      and it: "iterate (Write_body z snk) (?w2, st1) = Some ((w', st'), r)"
      and res: "Ret (n, err) = (case r of None \<Rightarrow> Ret (int (length p), None) | Some r' \<Rightarrow> r')"
    from Write_loop_frame[OF it] ne have s': "w_stream w' \<noteq> 0" by (simp add: w_frame_def)
    from Write_loop_progress[OF it] obtain evs where
      e: "in_Size (w_inBuffer w') = length p" "trace st' = trace st1 @ evs"
         "in_Pos (w_inBuffer w') = pos_after evs 0"
         "case r of
               None \<Rightarrow> list_all sink_ok evs \<and> \<not> in_Pos (w_inBuffer w') < in_Size (w_inBuffer w')
             | Some Panic \<Rightarrow> True
             | Some (Ret (n, e)) \<Rightarrow> e \<noteq> None \<and> n = int_of_uint64 (in_Pos (w_inBuffer w'))"
      by auto
    have ne': "new_events st st' =
         (if w_stream w = 0 then [Ev_createCStream (w_stream w1)] else []) @ evs"
      using e(2) o1(1) by (simp add: new_events_def)
    have fw: "r = None \<longrightarrow> forwarded evs = produced evs"
      using Write_loop_forwards[OF it] e(2) by auto
    show ?thesis
      using res e s' fw
      by (auto simp: ne' pos_after_append forwarded_append produced_append
          split: option.splits ret.splits)
  qed
qed

text \<open>The theorem on the example, with the sink that accepts and with the sink that fails.\<close>

theorem C3_witness:
  "Write toy Buffer_Write (small_Writer []) world0 [1, 2, 3] = Some (sc_written, Ret (3, None)) \<and>
   \<not> in_Pos (w_inBuffer (fst sc_written)) < length [1 :: byte, 2, 3] \<and>
   list_all sink_ok (new_events world0 (snd sc_written)) \<and>
   forwarded (new_events world0 (snd sc_written)) = [1, 1, 1, 2] \<and>
   produced (new_events world0 (snd sc_written)) = [1, 1, 1, 2] \<and>
   Write toy (errorWriter_Write (External ''sink failed'')) (small_Writer ()) world0 [1, 2, 3] =
     Some (sc_failed, Ret (3, Some (External ''sink failed''))) \<and>
   3 = int_of_uint64 (in_Pos (w_inBuffer (fst sc_failed))) \<and>
   in_Pos (w_inBuffer (fst sc_failed)) = pos_after (new_events world0 (snd sc_failed)) 0"
proof -
  have h: "w_stream (fst sc_failed) \<noteq> 0" by code_simp
  from C3_Write_count[where z = toy and snk = Buffer_Write and w = "small_Writer []" and
      st = world0 and p = "[1, 2, 3]" and w' = "fst sc_written" and st' = "snd sc_written" and
      n = 3 and err = None]
    C3_Write_count[where z = toy and snk = "errorWriter_Write (External ''sink failed'')" and
      w = "small_Writer ()" and st = world0 and p = "[1, 2, 3]" and w' = "fst sc_failed" and
      st' = "snd sc_failed" and n = 3 and err = "Some (External ''sink failed'')"] h
  show ?thesis
    by (auto simp: sc_Write sc_Write_failed sc_Write_forwarded)
qed

text \<open>
  C3 as stated fails: on the sink that always fails, \<^verbatim>\<open>Write\<close> of three bytes returns
  the count 3 with the error, and the sink has accepted nothing.
\<close>

theorem C3_counterexample:
  "Write toy (errorWriter_Write (External ''sink failed'')) (small_Writer ()) world0 [1, 2, 3] =
     Some (sc_failed, Ret (3, Some (External ''sink failed''))) \<and>
   forwarded (trace (snd sc_failed)) = []"
  by code_simp

section \<open>Zero bytes, and the end of the stream\<close>
















section \<open>Read on an engine that stalls\<close>

lemma int_of_uint64_0 [simp]: "int_of_uint64 0 = 0"
  by (simp add: int_of_uint64_def)














section \<open>Loops that end\<close>

text \<open>
  A loop ends, with a result that satisfies \<open>Q\<close>, when an invariant \<open>I\<close> holds that carries a
  ghost value going down in a well-founded order at every turn.
\<close>

lemma iterate_total:
  fixes body :: "'s \<Rightarrow> ('s, 'r) loop_step"
  assumes wf: "wf R" and init: "I g s"
    and step: "\<And>g s s'. I g s \<Longrightarrow> body s = Next s' \<Longrightarrow> \<exists>g'. I g' s' \<and> (g', g) \<in> R"
    and stop: "\<And>g s r. I g s \<Longrightarrow> body s = Stop r \<Longrightarrow> Q r"
  shows "\<exists>r. iterate body s = Some r \<and> Q r"
  using wf init
proof (induction g arbitrary: s rule: wf_induct_rule)
  case (less g)
  show ?case
  proof (cases "body s")
    case (Next s')
    from step[OF less.prems Next] obtain g' where "I g' s'" "(g', g) \<in> R" by auto
    from less.IH[OF this(2) this(1)] iterate_Next[of body s s'] Next show ?thesis by simp
  next
    case (Stop r)
    with stop[OF less.prems Stop] iterate_Stop[of body s r] show ?thesis by auto
  qed
qed

section \<open>The Writer on a buffer, with an engine that compresses\<close>

text \<open>
  With an engine that meets \<open>compress_ok\<close>, the three loops of the Writer end without an
  error, and \<^verbatim>\<open>Write\<close>, \<^verbatim>\<open>Flush\<close> and \<^verbatim>\<open>Close\<close> keep the account of what the stream has
  taken in and of what the buffer holds.
\<close>

lemma go_slice_overlay:
  "length ws \<le> length region \<Longrightarrow> go_slice (overlay ws region) 0 (int (length ws)) = Some ws"
  by (simp add: go_slice_def overlay_def)

lemma forward_Buffer:
  assumes "length (written rep) \<le> length buf"
    and "w_buffer w = overlay (written rep) buf"
    and "out_Pos (w_outBuffer w) = length (written rep)"
  shows "\<exists>st'. forward Buffer_Write w st = Ret (w\<lparr>w_writer := w_writer w @ written rep\<rparr>, st', None) \<and>
           estate st' = estate st"
  using assms
  by (cases "written rep = []")
    (auto simp: forward_def Buffer_Write_def go_slice_overlay log_def)


lemma compress_ok_create:
  assumes "compress_ok z ct" and "createCStream z e = (h, e')"
  shows "h \<noteq> 0" and "Absorbed ct e' h [] [] False"
proof -
  from assms(1) have "fst (createCStream z e) \<noteq> 0 \<and>
      Absorbed ct (snd (createCStream z e)) (fst (createCStream z e)) [] [] False"
    unfolding compress_ok_def by blast
  with assms(2) show "h \<noteq> 0" and "Absorbed ct e' h [] [] False" by simp_all
qed

lemma compress_ok_step:
  assumes "compress_ok z ct"
    and "Absorbed ct e h a out fin" and "out_Pos ob = 0" and "0 < out_Size ob"
    and "in_Pos ib \<le> in_Size ib" and "in_Size ib \<le> length (in_Src ib)"
    and "m = EndContinue \<or> m = EndFlush \<or> m = EndEnd"
    and "fin \<longrightarrow> m = EndEnd \<and> avail ib = []"
    and "compressStream2 z h ob ib m e = (rep, e')"
  shows "isError z (hint rep) = 0 \<and>
         in_Pos ib \<le> new_in_Pos rep \<and> new_in_Pos rep \<le> in_Size ib \<and>
         length (written rep) \<le> out_Size ob \<and>
         Absorbed ct e' h (a @ take (new_in_Pos rep - in_Pos ib) (avail ib))
           (out @ written rep) (m = EndEnd) \<and>
         (new_in_Pos rep = in_Pos ib \<and>
          (if m = EndContinue then in_Pos ib < in_Size ib else hint rep \<noteq> 0) \<longrightarrow>
            cwork ct e' h < cwork ct e h) \<and>
         (m = EndEnd \<and> hint rep = 0 \<longrightarrow>
            new_in_Pos rep = in_Size ib \<and> Frame ct (a @ avail ib) (out @ written rep))"
proof -
  from assms(1) have step: "\<forall>e h a out fin ob ib m rep e'.
         Absorbed ct e h a out fin \<and> out_Pos ob = 0 \<and> 0 < out_Size ob \<and>
         in_Pos ib \<le> in_Size ib \<and> in_Size ib \<le> length (in_Src ib) \<and>
         (m = EndContinue \<or> m = EndFlush \<or> m = EndEnd) \<and>
         (fin \<longrightarrow> m = EndEnd \<and> avail ib = []) \<and>
         compressStream2 z h ob ib m e = (rep, e') \<longrightarrow>
           isError z (hint rep) = 0 \<and>
           in_Pos ib \<le> new_in_Pos rep \<and> new_in_Pos rep \<le> in_Size ib \<and>
           length (written rep) \<le> out_Size ob \<and>
           Absorbed ct e' h (a @ take (new_in_Pos rep - in_Pos ib) (avail ib))
             (out @ written rep) (m = EndEnd) \<and>
           (new_in_Pos rep = in_Pos ib \<and>
            (if m = EndContinue then in_Pos ib < in_Size ib else hint rep \<noteq> 0) \<longrightarrow>
              cwork ct e' h < cwork ct e h) \<and>
           (m = EndEnd \<and> hint rep = 0 \<longrightarrow>
              new_in_Pos rep = in_Size ib \<and> Frame ct (a @ avail ib) (out @ written rep))"
    unfolding compress_ok_def by (rule conjunct2)
  show ?thesis
    by (rule step[rule_format, of e h a out fin ob ib m rep e']) (use assms(2-) in blast)
qed

lemma writer_step:
  assumes ok: "compress_ok z ct"
    and abs: "Absorbed ct (estate st) (w_stream w) a out fin"
    and buf: "w_buffer w \<noteq> []"
    and ib: "in_Pos (w_inBuffer w) \<le> in_Size (w_inBuffer w)"
            "in_Size (w_inBuffer w) \<le> length (in_Src (w_inBuffer w))"
    and m: "m = EndContinue \<or> m = EndFlush \<or> m = EndEnd"
           "fin \<longrightarrow> m = EndEnd \<and> avail (w_inBuffer w) = []"
    and sink: "w_writer w = k0 @ out"
    and cs: "compress_step z m w st = (rep, w1, st1)"
  shows "isError z (hint rep) = 0 \<and>
         in_Pos (w_inBuffer w) \<le> new_in_Pos rep \<and> new_in_Pos rep \<le> in_Size (w_inBuffer w) \<and>
         Absorbed ct (estate st1) (w_stream w)
           (a @ take (new_in_Pos rep - in_Pos (w_inBuffer w)) (avail (w_inBuffer w)))
           (out @ written rep) (m = EndEnd) \<and>
         (new_in_Pos rep = in_Pos (w_inBuffer w) \<and>
          (if m = EndContinue then in_Pos (w_inBuffer w) < in_Size (w_inBuffer w)
           else hint rep \<noteq> 0) \<longrightarrow>
            cwork ct (estate st1) (w_stream w) < cwork ct (estate st) (w_stream w)) \<and>
         (m = EndEnd \<and> hint rep = 0 \<longrightarrow>
            Frame ct (a @ avail (w_inBuffer w)) (out @ written rep)) \<and>
         (\<exists>w2 st2. forward Buffer_Write w1 st1 = Ret (w2, st2, None) \<and>
            estate st2 = estate st1 \<and> w_stream w2 = w_stream w \<and> w_ctx w2 = w_ctx w \<and>
            w_buffer w2 \<noteq> [] \<and>
            w_inBuffer w2 = (w_inBuffer w)\<lparr>in_Pos := new_in_Pos rep\<rparr> \<and>
            w_writer w2 = k0 @ out @ written rep)"
proof -
  note p = compress_step_props[OF cs]
  have c: "isError z (hint rep) = 0 \<and>
         in_Pos (w_inBuffer w) \<le> new_in_Pos rep \<and> new_in_Pos rep \<le> in_Size (w_inBuffer w) \<and>
         length (written rep) \<le> out_Size \<lparr>out_Size = length (w_buffer w), out_Pos = 0\<rparr> \<and>
         Absorbed ct (estate st1) (w_stream w)
           (a @ take (new_in_Pos rep - in_Pos (w_inBuffer w)) (avail (w_inBuffer w)))
           (out @ written rep) (m = EndEnd) \<and>
         (new_in_Pos rep = in_Pos (w_inBuffer w) \<and>
          (if m = EndContinue then in_Pos (w_inBuffer w) < in_Size (w_inBuffer w)
           else hint rep \<noteq> 0) \<longrightarrow>
            cwork ct (estate st1) (w_stream w) < cwork ct (estate st) (w_stream w)) \<and>
         (m = EndEnd \<and> hint rep = 0 \<longrightarrow>
            new_in_Pos rep = in_Size (w_inBuffer w) \<and>
            Frame ct (a @ avail (w_inBuffer w)) (out @ written rep))"
    by (rule compress_ok_step[OF ok abs _ _ ib m p(3)]) (use buf in simp_all)
  then have len: "length (written rep) \<le> length (w_buffer w)" by simp
  have w1: "w_buffer w1 = overlay (written rep) (w_buffer w)"
    "out_Pos (w_outBuffer w1) = length (written rep)"
    "w_stream w1 = w_stream w" "w_ctx w1 = w_ctx w" "w_writer w1 = w_writer w"
    "w_inBuffer w1 = (w_inBuffer w)\<lparr>in_Pos := new_in_Pos rep\<rparr>"
    by (simp_all add: p(1))
  from forward_Buffer[OF len w1(1) w1(2), of st1] obtain st2
    where f: "forward Buffer_Write w1 st1 = Ret (w1\<lparr>w_writer := w_writer w1 @ written rep\<rparr>, st2, None)"
      and e: "estate st2 = estate st1" by blast
  have "\<exists>w2 st2. forward Buffer_Write w1 st1 = Ret (w2, st2, None) \<and>
            estate st2 = estate st1 \<and> w_stream w2 = w_stream w \<and> w_ctx w2 = w_ctx w \<and>
            w_buffer w2 \<noteq> [] \<and>
            w_inBuffer w2 = (w_inBuffer w)\<lparr>in_Pos := new_in_Pos rep\<rparr> \<and>
            w_writer w2 = k0 @ out @ written rep"
    apply (rule exI[of _ "w1\<lparr>w_writer := w_writer w1 @ written rep\<rparr>"])
    apply (rule exI[of _ st2])
    using f e w1 buf sink by (auto simp: overlay_def)
  with c show ?thesis by blast
qed


lemma take_more: "i \<le> j \<Longrightarrow> take i xs @ take (j - i) (drop i xs) = take j xs"
  by (metis le_add_diff_inverse take_add)

lemma Write_loop_total:
  fixes z :: "'e Zstd" and w :: "byte list Writer"
  assumes ok: "compress_ok z ct"
    and h: "w_stream w = h" and buf: "w_buffer w \<noteq> []"
    and ib: "w_inBuffer w = \<lparr>in_Src = p, in_Size = length p, in_Pos = 0\<rparr>"
    and abs: "Absorbed ct (estate st) h a out False" and sink: "w_writer w = k0 @ out"
  shows "\<exists>r. iterate (Write_body z Buffer_Write) (w, st) = Some r \<and>
           (case r of ((w', st'), q) \<Rightarrow> q = None \<and> w_stream w' = h \<and> w_ctx w' = w_ctx w \<and>
              w_buffer w' \<noteq> [] \<and>
              (\<exists>out'. Absorbed ct (estate st') h (a @ p) out' False \<and> w_writer w' = k0 @ out'))"
proof (rule iterate_total[where R = "less_than <*lex*> less_than"
      and g = "(length p, cwork ct (estate st) h)"
      and I = "\<lambda>g s. case s of (w' :: byte list Writer, st' :: 'e world) \<Rightarrow>
                 w_stream w' = h \<and> w_ctx w' = w_ctx w \<and> w_buffer w' \<noteq> [] \<and>
                 in_Src (w_inBuffer w') = p \<and> in_Size (w_inBuffer w') = length p \<and>
                 in_Pos (w_inBuffer w') \<le> length p \<and>
                 g = (length p - in_Pos (w_inBuffer w'), cwork ct (estate st') h) \<and>
                 (\<exists>out'. Absorbed ct (estate st') h (a @ take (in_Pos (w_inBuffer w')) p) out' False \<and>
                    w_writer w' = k0 @ out')"])
  show "wf (less_than <*lex*> less_than)" by (intro wf_lex_prod wf_less_than)
next
  show "case (w, st) of (w', st') \<Rightarrow>
          w_stream w' = h \<and> w_ctx w' = w_ctx w \<and> w_buffer w' \<noteq> [] \<and>
          in_Src (w_inBuffer w') = p \<and> in_Size (w_inBuffer w') = length p \<and>
          in_Pos (w_inBuffer w') \<le> length p \<and>
          (length p, cwork ct (estate st) h) =
            (length p - in_Pos (w_inBuffer w'), cwork ct (estate st') h) \<and>
          (\<exists>out'. Absorbed ct (estate st') h (a @ take (in_Pos (w_inBuffer w')) p) out' False \<and>
             w_writer w' = k0 @ out')"
    using h buf ib abs sink by auto
next
  fix g :: "nat \<times> nat" and s s' :: "byte list Writer \<times> 'e world"
  assume I: "case s of (w', st') \<Rightarrow>
          w_stream w' = h \<and> w_ctx w' = w_ctx w \<and> w_buffer w' \<noteq> [] \<and>
          in_Src (w_inBuffer w') = p \<and> in_Size (w_inBuffer w') = length p \<and>
          in_Pos (w_inBuffer w') \<le> length p \<and>
          g = (length p - in_Pos (w_inBuffer w'), cwork ct (estate st') h) \<and>
          (\<exists>out'. Absorbed ct (estate st') h (a @ take (in_Pos (w_inBuffer w')) p) out' False \<and>
             w_writer w' = k0 @ out')"
    and nx: "Write_body z Buffer_Write s = Next s'"
  obtain w0 st0 where s: "s = (w0, st0)" by (cases s)
  from I s obtain out0 where
    i: "w_stream w0 = h" "w_ctx w0 = w_ctx w" "w_buffer w0 \<noteq> []" "in_Src (w_inBuffer w0) = p"
      "in_Size (w_inBuffer w0) = length p" "in_Pos (w_inBuffer w0) \<le> length p"
      "g = (length p - in_Pos (w_inBuffer w0), cwork ct (estate st0) h)"
      "Absorbed ct (estate st0) h (a @ take (in_Pos (w_inBuffer w0)) p) out0 False"
      "w_writer w0 = k0 @ out0"
    by auto
  have ab: "Absorbed ct (estate st0) (w_stream w0) (a @ take (in_Pos (w_inBuffer w0)) p) out0 False"
    using i by simp
  obtain rep w1 st1 where cs: "compress_step z EndContinue w0 st0 = (rep, w1, st1)"
    by (cases "compress_step z EndContinue w0 st0") auto
  have av: "avail (w_inBuffer w0) = drop (in_Pos (w_inBuffer w0)) p"
    by (simp add: avail_def i)
  from nx s have lt: "in_Pos (w_inBuffer w0) < length p"
    by (auto simp: Write_body_def i split: if_splits)
  have st: "isError z (hint rep) = 0 \<and>
         in_Pos (w_inBuffer w0) \<le> new_in_Pos rep \<and> new_in_Pos rep \<le> in_Size (w_inBuffer w0) \<and>
         Absorbed ct (estate st1) (w_stream w0)
           ((a @ take (in_Pos (w_inBuffer w0)) p) @
              take (new_in_Pos rep - in_Pos (w_inBuffer w0)) (avail (w_inBuffer w0)))
           (out0 @ written rep) (EndContinue = EndEnd) \<and>
         (new_in_Pos rep = in_Pos (w_inBuffer w0) \<and>
          (if EndContinue = EndContinue then in_Pos (w_inBuffer w0) < in_Size (w_inBuffer w0)
           else hint rep \<noteq> 0) \<longrightarrow>
            cwork ct (estate st1) (w_stream w0) < cwork ct (estate st0) (w_stream w0)) \<and>
         (EndContinue = EndEnd \<and> hint rep = 0 \<longrightarrow>
            Frame ct ((a @ take (in_Pos (w_inBuffer w0)) p) @ avail (w_inBuffer w0))
              (out0 @ written rep)) \<and>
         (\<exists>w2 st2. forward Buffer_Write w1 st1 = Ret (w2, st2, None) \<and>
            estate st2 = estate st1 \<and> w_stream w2 = w_stream w0 \<and> w_ctx w2 = w_ctx w0 \<and>
            w_buffer w2 \<noteq> [] \<and>
            w_inBuffer w2 = (w_inBuffer w0)\<lparr>in_Pos := new_in_Pos rep\<rparr> \<and>
            w_writer w2 = k0 @ out0 @ written rep)"
    by (rule writer_step[OF ok ab i(3) _ _ _ _ i(9) cs]) (use i in simp_all)
  then obtain w2 st2 where f: "forward Buffer_Write w1 st1 = Ret (w2, st2, None)"
    and w2: "estate st2 = estate st1" "w_stream w2 = h" "w_ctx w2 = w_ctx w" "w_buffer w2 \<noteq> []"
      "w_inBuffer w2 = (w_inBuffer w0)\<lparr>in_Pos := new_in_Pos rep\<rparr>"
      "w_writer w2 = k0 @ out0 @ written rep"
    using i by auto
  from st have ne: "isError z (hint rep) = 0" and le: "in_Pos (w_inBuffer w0) \<le> new_in_Pos rep"
    "new_in_Pos rep \<le> length p" using i by auto
  from nx s cs f ne lt i(3) have s': "s' = (w2, st2)"
    by (auto simp: Write_body_def i split: if_splits)
  have a': "Absorbed ct (estate st2) h (a @ take (new_in_Pos rep) p) (out0 @ written rep) False"
    using st i(1) w2(1) take_more[OF le(1), of p] by (simp add: av EndContinue_def EndEnd_def)
  have dec: "((length p - new_in_Pos rep, cwork ct (estate st2) h), g) \<in> less_than <*lex*> less_than"
  proof (cases "new_in_Pos rep = in_Pos (w_inBuffer w0)")
    case True
    with st lt i have "cwork ct (estate st1) h < cwork ct (estate st0) h" by auto
    with True show ?thesis by (simp add: i(7) w2(1))
  next
    case False
    with le lt have "length p - new_in_Pos rep < length p - in_Pos (w_inBuffer w0)" by arith
    then show ?thesis by (simp add: i(7))
  qed
  show "\<exists>g'. (case s' of (w', st') \<Rightarrow>
          w_stream w' = h \<and> w_ctx w' = w_ctx w \<and> w_buffer w' \<noteq> [] \<and>
          in_Src (w_inBuffer w') = p \<and> in_Size (w_inBuffer w') = length p \<and>
          in_Pos (w_inBuffer w') \<le> length p \<and>
          g' = (length p - in_Pos (w_inBuffer w'), cwork ct (estate st') h) \<and>
          (\<exists>out'. Absorbed ct (estate st') h (a @ take (in_Pos (w_inBuffer w')) p) out' False \<and>
             w_writer w' = k0 @ out')) \<and> (g', g) \<in> less_than <*lex*> less_than"
    apply (rule exI[of _ "(length p - new_in_Pos rep, cwork ct (estate st2) h)"])
    using s' w2 i le a' dec by auto
next
  fix g :: "nat \<times> nat" and s :: "byte list Writer \<times> 'e world"
    and r :: "(byte list Writer \<times> 'e world) \<times> (int \<times> error option) ret option"
  assume I: "case s of (w', st') \<Rightarrow>
          w_stream w' = h \<and> w_ctx w' = w_ctx w \<and> w_buffer w' \<noteq> [] \<and>
          in_Src (w_inBuffer w') = p \<and> in_Size (w_inBuffer w') = length p \<and>
          in_Pos (w_inBuffer w') \<le> length p \<and>
          g = (length p - in_Pos (w_inBuffer w'), cwork ct (estate st') h) \<and>
          (\<exists>out'. Absorbed ct (estate st') h (a @ take (in_Pos (w_inBuffer w')) p) out' False \<and>
             w_writer w' = k0 @ out')"
    and sp: "Write_body z Buffer_Write s = Stop r"
  obtain w0 st0 where s: "s = (w0, st0)" by (cases s)
  from I s obtain out0 where
    i: "w_stream w0 = h" "w_ctx w0 = w_ctx w" "w_buffer w0 \<noteq> []" "in_Src (w_inBuffer w0) = p"
      "in_Size (w_inBuffer w0) = length p" "in_Pos (w_inBuffer w0) \<le> length p"
      "Absorbed ct (estate st0) h (a @ take (in_Pos (w_inBuffer w0)) p) out0 False"
      "w_writer w0 = k0 @ out0"
    by auto
  have ab: "Absorbed ct (estate st0) (w_stream w0) (a @ take (in_Pos (w_inBuffer w0)) p) out0 False"
    using i by simp
  obtain rep w1 st1 where cs: "compress_step z EndContinue w0 st0 = (rep, w1, st1)"
    by (cases "compress_step z EndContinue w0 st0") auto
  have st: "isError z (hint rep) = 0 \<and>
         in_Pos (w_inBuffer w0) \<le> new_in_Pos rep \<and> new_in_Pos rep \<le> in_Size (w_inBuffer w0) \<and>
         Absorbed ct (estate st1) (w_stream w0)
           ((a @ take (in_Pos (w_inBuffer w0)) p) @
              take (new_in_Pos rep - in_Pos (w_inBuffer w0)) (avail (w_inBuffer w0)))
           (out0 @ written rep) (EndContinue = EndEnd) \<and>
         (new_in_Pos rep = in_Pos (w_inBuffer w0) \<and>
          (if EndContinue = EndContinue then in_Pos (w_inBuffer w0) < in_Size (w_inBuffer w0)
           else hint rep \<noteq> 0) \<longrightarrow>
            cwork ct (estate st1) (w_stream w0) < cwork ct (estate st0) (w_stream w0)) \<and>
         (EndContinue = EndEnd \<and> hint rep = 0 \<longrightarrow>
            Frame ct ((a @ take (in_Pos (w_inBuffer w0)) p) @ avail (w_inBuffer w0))
              (out0 @ written rep)) \<and>
         (\<exists>w2 st2. forward Buffer_Write w1 st1 = Ret (w2, st2, None) \<and>
            estate st2 = estate st1 \<and> w_stream w2 = w_stream w0 \<and> w_ctx w2 = w_ctx w0 \<and>
            w_buffer w2 \<noteq> [] \<and>
            w_inBuffer w2 = (w_inBuffer w0)\<lparr>in_Pos := new_in_Pos rep\<rparr> \<and>
            w_writer w2 = k0 @ out0 @ written rep)"
    by (rule writer_step[OF ok ab i(3) _ _ _ _ i(8) cs]) (use i in simp_all)
  then obtain w2 st2 where f: "forward Buffer_Write w1 st1 = Ret (w2, st2, None)" by blast
  from st have ne: "isError z (hint rep) = 0" by simp
  from sp s cs f ne i(3) have r: "r = ((w0, st0), None)" and ge: "\<not> in_Pos (w_inBuffer w0) < length p"
    by (auto simp: Write_body_def i split: if_splits)
  with i(6) have "in_Pos (w_inBuffer w0) = length p" by simp
  with i r show "case r of ((w', st'), q) \<Rightarrow> q = None \<and> w_stream w' = h \<and> w_ctx w' = w_ctx w \<and>
              w_buffer w' \<noteq> [] \<and>
              (\<exists>out'. Absorbed ct (estate st') h (a @ p) out' False \<and> w_writer w' = k0 @ out')"
    by auto
qed


lemma avail_empty_in [simp]: "avail empty_in = []"
  by (simp add: avail_def empty_in_def)

lemma empty_in_Pos: "n \<le> in_Size empty_in \<Longrightarrow> empty_in\<lparr>in_Pos := n\<rparr> = empty_in"
  by (simp add: empty_in_def)

lemma drain_step:
  assumes ok: "compress_ok z ct"
    and abs: "Absorbed ct (estate st) (w_stream w) a out fin"
    and buf: "w_buffer w \<noteq> []" and ib: "w_inBuffer w = empty_in"
    and m: "m = EndFlush \<or> m = EndEnd" "fin \<longrightarrow> m = EndEnd"
    and sink: "w_writer w = k0 @ out"
    and cs: "compress_step z m w st = (rep, w1, st1)"
  shows "isError z (hint rep) = 0 \<and>
         Absorbed ct (estate st1) (w_stream w) a (out @ written rep) (m = EndEnd) \<and>
         (hint rep \<noteq> 0 \<longrightarrow> cwork ct (estate st1) (w_stream w) < cwork ct (estate st) (w_stream w)) \<and>
         (m = EndEnd \<and> hint rep = 0 \<longrightarrow> Frame ct a (out @ written rep)) \<and>
         (\<exists>w2 st2. forward Buffer_Write w1 st1 = Ret (w2, st2, None) \<and>
            estate st2 = estate st1 \<and> w_stream w2 = w_stream w \<and> w_ctx w2 = w_ctx w \<and>
            w_buffer w2 \<noteq> [] \<and> w_inBuffer w2 = empty_in \<and>
            w_writer w2 = k0 @ out @ written rep)"
proof -
  have m': "m = EndContinue \<or> m = EndFlush \<or> m = EndEnd" using m by blast
  have fin': "fin \<longrightarrow> m = EndEnd \<and> avail (w_inBuffer w) = []" using m ib by simp
  have m0: "m \<noteq> EndContinue" using m by (auto simp: EndContinue_def EndFlush_def EndEnd_def)
  have st: "isError z (hint rep) = 0 \<and>
         in_Pos (w_inBuffer w) \<le> new_in_Pos rep \<and> new_in_Pos rep \<le> in_Size (w_inBuffer w) \<and>
         Absorbed ct (estate st1) (w_stream w)
           (a @ take (new_in_Pos rep - in_Pos (w_inBuffer w)) (avail (w_inBuffer w)))
           (out @ written rep) (m = EndEnd) \<and>
         (new_in_Pos rep = in_Pos (w_inBuffer w) \<and>
          (if m = EndContinue then in_Pos (w_inBuffer w) < in_Size (w_inBuffer w)
           else hint rep \<noteq> 0) \<longrightarrow>
            cwork ct (estate st1) (w_stream w) < cwork ct (estate st) (w_stream w)) \<and>
         (m = EndEnd \<and> hint rep = 0 \<longrightarrow>
            Frame ct (a @ avail (w_inBuffer w)) (out @ written rep)) \<and>
         (\<exists>w2 st2. forward Buffer_Write w1 st1 = Ret (w2, st2, None) \<and>
            estate st2 = estate st1 \<and> w_stream w2 = w_stream w \<and> w_ctx w2 = w_ctx w \<and>
            w_buffer w2 \<noteq> [] \<and>
            w_inBuffer w2 = (w_inBuffer w)\<lparr>in_Pos := new_in_Pos rep\<rparr> \<and>
            w_writer w2 = k0 @ out @ written rep)"
    by (rule writer_step[OF ok abs buf _ _ m' fin' sink cs]) (simp_all add: ib empty_in_def)
  then have pos: "new_in_Pos rep = 0" by (simp add: ib empty_in_def)
  from st pos m0 show ?thesis by (simp add: ib empty_in_Pos)
qed

lemma Flush_loop_total:
  fixes z :: "'e Zstd" and w :: "byte list Writer"
  assumes ok: "compress_ok z ct"
    and h: "w_stream w = h" and buf: "w_buffer w \<noteq> []" and ib: "w_inBuffer w = empty_in"
    and abs: "Absorbed ct (estate st) h a out False" and sink: "w_writer w = k0 @ out"
  shows "\<exists>r. iterate (Flush_body z Buffer_Write) (w, st) = Some r \<and>
           (case r of ((w', st'), q) \<Rightarrow> q = Ret None \<and> w_stream w' = h \<and> w_ctx w' = w_ctx w \<and>
              w_buffer w' \<noteq> [] \<and>
              (\<exists>out'. Absorbed ct (estate st') h a out' False \<and> w_writer w' = k0 @ out'))"
proof -
  let ?I = "\<lambda>g s. case s of (w' :: byte list Writer, st' :: 'e world) \<Rightarrow>
                 w_stream w' = h \<and> w_ctx w' = w_ctx w \<and> w_buffer w' \<noteq> [] \<and>
                 w_inBuffer w' = empty_in \<and> g = cwork ct (estate st') h \<and>
                 (\<exists>out'. Absorbed ct (estate st') h a out' False \<and> w_writer w' = k0 @ out')"
  let ?Q = "\<lambda>r. case r of ((w' :: byte list Writer, st' :: 'e world), q :: error option ret) \<Rightarrow>
              q = Ret None \<and> w_stream w' = h \<and> w_ctx w' = w_ctx w \<and> w_buffer w' \<noteq> [] \<and>
              (\<exists>out'. Absorbed ct (estate st') h a out' False \<and> w_writer w' = k0 @ out')"
  have step: "\<exists>(rep :: step_reply) w2 st2 out0.
      isError z (hint rep) = 0 \<and>
      Flush_body z Buffer_Write s =
        (if hint rep = 0 then Stop ((w2, st2), Ret None) else Next (w2, st2)) \<and>
      w_stream w2 = h \<and> w_ctx w2 = w_ctx w \<and> w_buffer w2 \<noteq> [] \<and> w_inBuffer w2 = empty_in \<and>
      Absorbed ct (estate st2) h a (out0 @ written rep) False \<and>
      w_writer w2 = k0 @ out0 @ written rep \<and>
      (hint rep \<noteq> 0 \<longrightarrow> cwork ct (estate st2) h < g)"
    if I: "?I g s" for g s
  proof -
    obtain w0 st0 where s: "s = (w0, st0)" by (cases s)
    from I s obtain out0 where
      i: "w_stream w0 = h" "w_ctx w0 = w_ctx w" "w_buffer w0 \<noteq> []" "w_inBuffer w0 = empty_in"
        "g = cwork ct (estate st0) h" "Absorbed ct (estate st0) (w_stream w0) a out0 False"
        "w_writer w0 = k0 @ out0"
      by auto
    obtain rep w1 st1 where cs: "compress_step z EndFlush w0 st0 = (rep, w1, st1)"
      by (cases "compress_step z EndFlush w0 st0") auto
    have "isError z (hint rep) = 0 \<and>
         Absorbed ct (estate st1) (w_stream w0) a (out0 @ written rep) (EndFlush = EndEnd) \<and>
         (hint rep \<noteq> 0 \<longrightarrow> cwork ct (estate st1) (w_stream w0) < cwork ct (estate st0) (w_stream w0)) \<and>
         (EndFlush = EndEnd \<and> hint rep = 0 \<longrightarrow> Frame ct a (out0 @ written rep)) \<and>
         (\<exists>w2 st2. forward Buffer_Write w1 st1 = Ret (w2, st2, None) \<and>
            estate st2 = estate st1 \<and> w_stream w2 = w_stream w0 \<and> w_ctx w2 = w_ctx w0 \<and>
            w_buffer w2 \<noteq> [] \<and> w_inBuffer w2 = empty_in \<and>
            w_writer w2 = k0 @ out0 @ written rep)"
      by (rule drain_step[OF ok i(6) i(3) i(4) _ _ i(7) cs]) simp_all
    then obtain w2 st2 where f: "forward Buffer_Write w1 st1 = Ret (w2, st2, None)"
      and r: "isError z (hint rep) = 0" "Absorbed ct (estate st1) h a (out0 @ written rep) False"
        "hint rep \<noteq> 0 \<longrightarrow> cwork ct (estate st1) h < g"
        "estate st2 = estate st1" "w_stream w2 = h" "w_ctx w2 = w_ctx w" "w_buffer w2 \<noteq> []"
        "w_inBuffer w2 = empty_in" "w_writer w2 = k0 @ out0 @ written rep"
      using i by (auto simp: EndFlush_def EndEnd_def)
    have b: "Flush_body z Buffer_Write s =
        (if hint rep = 0 then Stop ((w2, st2), Ret None) else Next (w2, st2))"
      using s cs f r(1) i(3) by (simp add: Flush_body_def)
    show ?thesis
      apply (rule exI[of _ rep], rule exI[of _ w2], rule exI[of _ st2], rule exI[of _ out0])
      using b r by simp
  qed
  show ?thesis
  proof (rule iterate_total[where R = less_than and g = "cwork ct (estate st) h" and I = ?I and Q = ?Q])
    show "wf less_than" by simp
    show "?I (cwork ct (estate st) h) (w, st)" using h buf ib abs sink by auto
  next
    fix g s s' assume I: "?I g s" and nx: "Flush_body z Buffer_Write s = Next s'"
    from step[OF I] nx show "\<exists>g'. ?I g' s' \<and> (g', g) \<in> less_than"
      by (auto split: if_splits)
  next
    fix g s r assume I: "?I g s" and sp: "Flush_body z Buffer_Write s = Stop r"
    from step[OF I] sp show "?Q r"
      by (auto split: if_splits)
  qed
qed

lemma Close_loop_total:
  fixes z :: "'e Zstd" and w :: "byte list Writer"
  assumes ok: "compress_ok z ct"
    and h: "w_stream w = h" and buf: "w_buffer w \<noteq> []" and ib: "w_inBuffer w = empty_in"
    and abs: "Absorbed ct (estate st) h a out False" and sink: "w_writer w = k0 @ out"
  shows "\<exists>r. iterate (Close_body z Buffer_Write) (w, st) = Some r \<and>
           (case r of ((w', st'), q) \<Rightarrow> q = None \<and> w_stream w' = h \<and> w_ctx w' = w_ctx w \<and>
              (\<exists>f. Frame ct a f \<and> w_writer w' = k0 @ f))"
proof -
  let ?I = "\<lambda>g s. case s of (w' :: byte list Writer, st' :: 'e world) \<Rightarrow>
                 w_stream w' = h \<and> w_ctx w' = w_ctx w \<and> w_buffer w' \<noteq> [] \<and>
                 w_inBuffer w' = empty_in \<and> g = cwork ct (estate st') h \<and>
                 (\<exists>out' fin. Absorbed ct (estate st') h a out' fin \<and> w_writer w' = k0 @ out')"
  let ?Q = "\<lambda>r. case r of ((w' :: byte list Writer, st' :: 'e world), q :: error option ret option) \<Rightarrow>
              q = None \<and> w_stream w' = h \<and> w_ctx w' = w_ctx w \<and>
              (\<exists>f. Frame ct a f \<and> w_writer w' = k0 @ f)"
  have step: "\<exists>(rep :: step_reply) w2 st2 out0.
      isError z (hint rep) = 0 \<and>
      Close_body z Buffer_Write s =
        (if hint rep = 0 then Stop ((w2, st2), None) else Next (w2, st2)) \<and>
      w_stream w2 = h \<and> w_ctx w2 = w_ctx w \<and> w_buffer w2 \<noteq> [] \<and> w_inBuffer w2 = empty_in \<and>
      Absorbed ct (estate st2) h a (out0 @ written rep) True \<and>
      w_writer w2 = k0 @ out0 @ written rep \<and>
      (hint rep = 0 \<longrightarrow> Frame ct a (out0 @ written rep)) \<and>
      (hint rep \<noteq> 0 \<longrightarrow> cwork ct (estate st2) h < g)"
    if I: "?I g s" for g s
  proof -
    obtain w0 st0 where s: "s = (w0, st0)" by (cases s)
    from I s obtain out0 fin where
      i: "w_stream w0 = h" "w_ctx w0 = w_ctx w" "w_buffer w0 \<noteq> []" "w_inBuffer w0 = empty_in"
        "g = cwork ct (estate st0) h" "Absorbed ct (estate st0) (w_stream w0) a out0 fin"
        "w_writer w0 = k0 @ out0"
      by auto
    obtain rep w1 st1 where cs: "compress_step z EndEnd w0 st0 = (rep, w1, st1)"
      by (cases "compress_step z EndEnd w0 st0") auto
    have "isError z (hint rep) = 0 \<and>
         Absorbed ct (estate st1) (w_stream w0) a (out0 @ written rep) (EndEnd = EndEnd) \<and>
         (hint rep \<noteq> 0 \<longrightarrow> cwork ct (estate st1) (w_stream w0) < cwork ct (estate st0) (w_stream w0)) \<and>
         (EndEnd = EndEnd \<and> hint rep = 0 \<longrightarrow> Frame ct a (out0 @ written rep)) \<and>
         (\<exists>w2 st2. forward Buffer_Write w1 st1 = Ret (w2, st2, None) \<and>
            estate st2 = estate st1 \<and> w_stream w2 = w_stream w0 \<and> w_ctx w2 = w_ctx w0 \<and>
            w_buffer w2 \<noteq> [] \<and> w_inBuffer w2 = empty_in \<and>
            w_writer w2 = k0 @ out0 @ written rep)"
      by (rule drain_step[OF ok i(6) i(3) i(4) _ _ i(7) cs]) simp_all
    then obtain w2 st2 where f: "forward Buffer_Write w1 st1 = Ret (w2, st2, None)"
      and r: "isError z (hint rep) = 0" "Absorbed ct (estate st1) h a (out0 @ written rep) True"
        "hint rep \<noteq> 0 \<longrightarrow> cwork ct (estate st1) h < g"
        "hint rep = 0 \<longrightarrow> Frame ct a (out0 @ written rep)"
        "estate st2 = estate st1" "w_stream w2 = h" "w_ctx w2 = w_ctx w" "w_buffer w2 \<noteq> []"
        "w_inBuffer w2 = empty_in" "w_writer w2 = k0 @ out0 @ written rep"
      using i by auto
    have b: "Close_body z Buffer_Write s =
        (if hint rep = 0 then Stop ((w2, st2), None) else Next (w2, st2))"
      using s cs f r(1) i(3) by (simp add: Close_body_def)
    show ?thesis
      apply (rule exI[of _ rep], rule exI[of _ w2], rule exI[of _ st2], rule exI[of _ out0])
      using b r by simp
  qed
  show ?thesis
  proof (rule iterate_total[where R = less_than and g = "cwork ct (estate st) h" and I = ?I and Q = ?Q])
    show "wf less_than" by simp
    show "?I (cwork ct (estate st) h) (w, st)" using h buf ib abs sink by auto
  next
    fix g s s' assume I: "?I g s" and nx: "Close_body z Buffer_Write s = Next s'"
    from step[OF I] nx show "\<exists>g'. ?I g' s' \<and> (g', g) \<in> less_than"
      by (auto split: if_splits)
  next
    fix g s r assume I: "?I g s" and sp: "Close_body z Buffer_Write s = Stop r"
    from step[OF I] sp show "?Q r"
      by (auto split: if_splits)
  qed
qed


lemma Write_holds:
  fixes z :: "'e Zstd" and w :: "byte list Writer"
  assumes ok: "compress_ok z ct" and hd: "holds ct (w, st) k0 a"
  shows "\<exists>w' st'. Write z Buffer_Write w st p = Some ((w', st'), Ret (int (length p), None)) \<and>
           holds ct (w', st') k0 (a @ p) \<and> (p \<noteq> [] \<longrightarrow> w_stream w' \<noteq> 0) \<and>
           (w_stream w \<noteq> 0 \<longrightarrow> w_stream w' = w_stream w)"
proof (cases "p = []")
  case True
  with hd show ?thesis by (auto simp: Write_def)
next
  case False
  obtain w1 st1 where o: "open_stream z w st = (w1, st1)" by (cases "open_stream z w st")
  let ?w2 = "w1\<lparr>w_inBuffer := \<lparr>in_Src = p, in_Size = length p, in_Pos = 0\<rparr>\<rparr>"
  have o1: "w_stream w1 \<noteq> 0 \<and> w_buffer w1 \<noteq> [] \<and> w_ctx w1 = w_ctx w \<and>
            (w_stream w \<noteq> 0 \<longrightarrow> w_stream w1 = w_stream w) \<and>
            (\<exists>out. Absorbed ct (estate st1) (w_stream w1) a out False \<and> w_writer w1 = k0 @ out)"
  proof (cases "w_stream w = 0")
    case True
    obtain h e1 where c: "createCStream z (estate st) = (h, e1)"
      by (cases "createCStream z (estate st)")
    from compress_ok_create[OF ok c] o True c hd show ?thesis
      by (auto simp: open_stream_def holds_def log_def)
  next
    case False
    with o hd show ?thesis by (auto simp: open_stream_def holds_def)
  qed
  then obtain out where a: "Absorbed ct (estate st1) (w_stream w1) a out False"
    and k: "w_writer w1 = k0 @ out" by blast
  have "\<exists>r. iterate (Write_body z Buffer_Write) (?w2, st1) = Some r \<and>
           (case r of ((w', st'), q) \<Rightarrow> q = None \<and> w_stream w' = w_stream w1 \<and>
              w_ctx w' = w_ctx ?w2 \<and> w_buffer w' \<noteq> [] \<and>
              (\<exists>out'. Absorbed ct (estate st') (w_stream w1) (a @ p) out' False \<and>
                 w_writer w' = k0 @ out'))"
    by (rule Write_loop_total[OF ok _ _ _ a, where p = p]) (use o1 k in simp_all)
  then obtain w' st' where it: "iterate (Write_body z Buffer_Write) (?w2, st1) = Some ((w', st'), None)"
    and r: "w_stream w' = w_stream w1" "w_buffer w' \<noteq> []"
      "\<exists>out'. Absorbed ct (estate st') (w_stream w1) (a @ p) out' False \<and> w_writer w' = k0 @ out'"
    by auto
  have "Write z Buffer_Write w st p = Some ((w', st'), Ret (int (length p), None))"
    using False o o1 it by (simp add: Write_def)
  with r o1 show ?thesis by (auto simp: holds_def)
qed

lemma Flush_holds:
  fixes z :: "'e Zstd" and w :: "byte list Writer"
  assumes ok: "compress_ok z ct" and hd: "holds ct (w, st) k0 a"
  shows "\<exists>w' st'. Flush z Buffer_Write w st = Some ((w', st'), Ret None) \<and>
           holds ct (w', st') k0 a \<and> w_stream w' = w_stream w"
proof (cases "w_stream w = 0")
  case True
  with hd show ?thesis by (auto simp: Flush_def)
next
  case False
  with hd obtain out where a: "Absorbed ct (estate st) (w_stream w) a out False"
    and k: "w_writer w = k0 @ out" and b: "w_buffer w \<noteq> []"
    by (auto simp: holds_def)
  let ?w2 = "w\<lparr>w_inBuffer := empty_in\<rparr>"
  have "\<exists>r. iterate (Flush_body z Buffer_Write) (?w2, st) = Some r \<and>
           (case r of ((w', st'), q) \<Rightarrow> q = Ret None \<and> w_stream w' = w_stream w \<and>
              w_ctx w' = w_ctx ?w2 \<and> w_buffer w' \<noteq> [] \<and>
              (\<exists>out'. Absorbed ct (estate st') (w_stream w) a out' False \<and> w_writer w' = k0 @ out'))"
    by (rule Flush_loop_total[OF ok _ _ _ a]) (use b k in simp_all)
  then obtain w' st' where it: "iterate (Flush_body z Buffer_Write) (?w2, st) = Some ((w', st'), Ret None)"
    and r: "w_stream w' = w_stream w" "w_buffer w' \<noteq> []"
      "\<exists>out'. Absorbed ct (estate st') (w_stream w) a out' False \<and> w_writer w' = k0 @ out'"
    by auto
  have "Flush z Buffer_Write w st = Some ((w', st'), Ret None)"
    using False it by (simp add: Flush_def)
  with r False show ?thesis by (auto simp: holds_def)
qed

lemma Close_holds:
  fixes z :: "'e Zstd" and w :: "byte list Writer"
  assumes ok: "compress_ok z ct" and hd: "holds ct (w, st) k0 a" and op: "w_stream w \<noteq> 0"
  shows "\<exists>w' st' f. Writer_Close z Buffer_Write w st = Some ((w', st'), Ret None) \<and>
           Frame ct a f \<and> w_writer w' = k0 @ f \<and> w_stream w' = 0"
proof -
  from hd op obtain out where a: "Absorbed ct (estate st) (w_stream w) a out False"
    and k: "w_writer w = k0 @ out" and b: "w_buffer w \<noteq> []"
    by (auto simp: holds_def)
  let ?w2 = "w\<lparr>w_inBuffer := empty_in\<rparr>"
  have "\<exists>r. iterate (Close_body z Buffer_Write) (?w2, st) = Some r \<and>
           (case r of ((w', st'), q) \<Rightarrow> q = None \<and> w_stream w' = w_stream w \<and>
              w_ctx w' = w_ctx ?w2 \<and> (\<exists>f. Frame ct a f \<and> w_writer w' = k0 @ f))"
    by (rule Close_loop_total[OF ok _ _ _ a]) (use b k in simp_all)
  then obtain w1 st1 f where it: "iterate (Close_body z Buffer_Write) (?w2, st) = Some ((w1, st1), None)"
    and r: "Frame ct a f" "w_writer w1 = k0 @ f"
    by auto
  obtain w' st' where rc: "release_ctx z (release_stream z (w1, st1)) = (w', st')"
    by (cases "release_ctx z (release_stream z (w1, st1))")
  then have w': "w_writer w' = w_writer w1" "w_stream w' = 0"
    by (auto simp: release_ctx_def release_stream_def split: if_splits)
  have "Writer_Close z Buffer_Write w st = Some ((w', st'), Ret None)"
    using op it rc by (simp add: Writer_Close_def)
  with r w' show ?thesis by auto
qed

section \<open>The Reader on a buffer, with an engine that decompresses\<close>

text \<open>
  With an engine that meets \<open>decompress_ok\<close>, on a buffer that held one frame, the loop of
  \<^verbatim>\<open>Read\<close> ends, every \<^verbatim>\<open>Read\<close> hands out the next bytes of the content or, after all of
  them, \<^verbatim>\<open>io.EOF\<close>, and \<^verbatim>\<open>io.ReadAll\<close> returns the content.
\<close>

lemma decompress_ok_create:
  assumes "decompress_ok z ct" and "createDStream z e = (h, e')"
  shows "h \<noteq> 0" and "Frame ct a f \<Longrightarrow> Decoded ct e' h a f 0 0"
proof -
  from assms(1) have "fst (createDStream z e) \<noteq> 0 \<and>
      (\<forall>a f. Frame ct a f \<longrightarrow>
         Decoded ct (snd (createDStream z e)) (fst (createDStream z e)) a f 0 0)"
    unfolding decompress_ok_def by blast
  with assms(2) show "h \<noteq> 0" and "Frame ct a f \<Longrightarrow> Decoded ct e' h a f 0 0" by simp_all
qed

lemma decompress_ok_step:
  assumes "decompress_ok z ct"
    and "Frame ct a f" and "Decoded ct e h a f i k" and "out_Pos ob = 0" and "0 < out_Size ob"
    and "in_Pos ib \<le> in_Size ib" and "in_Size ib \<le> length (in_Src ib)"
    and "i + length (avail ib) \<le> length f" and "avail ib = take (length (avail ib)) (drop i f)"
    and "decompressStream z h ob ib e = (rep, e')"
  shows "isError z (hint rep) = 0 \<and>
         in_Pos ib \<le> new_in_Pos rep \<and> new_in_Pos rep \<le> in_Size ib \<and>
         length (written rep) \<le> out_Size ob \<and>
         k + length (written rep) \<le> length a \<and>
         written rep = take (length (written rep)) (drop k a) \<and>
         Decoded ct e' h a f (i + (new_in_Pos rep - in_Pos ib)) (k + length (written rep)) \<and>
         (hint rep = 0 \<longrightarrow>
            i + (new_in_Pos rep - in_Pos ib) = length f \<and> k + length (written rep) = length a) \<and>
         (hint rep \<noteq> 0 \<and> new_in_Pos rep = in_Pos ib \<and> written rep = [] \<and>
          (avail ib \<noteq> [] \<or> i = length f) \<longrightarrow>
            dwork ct e' h < dwork ct e h)"
proof -
  from assms(1) have step: "\<forall>e h a f i k ob ib rep e'.
         Frame ct a f \<and> Decoded ct e h a f i k \<and> out_Pos ob = 0 \<and> 0 < out_Size ob \<and>
         in_Pos ib \<le> in_Size ib \<and> in_Size ib \<le> length (in_Src ib) \<and>
         i + length (avail ib) \<le> length f \<and> avail ib = take (length (avail ib)) (drop i f) \<and>
         decompressStream z h ob ib e = (rep, e') \<longrightarrow>
           isError z (hint rep) = 0 \<and>
           in_Pos ib \<le> new_in_Pos rep \<and> new_in_Pos rep \<le> in_Size ib \<and>
           length (written rep) \<le> out_Size ob \<and>
           k + length (written rep) \<le> length a \<and>
           written rep = take (length (written rep)) (drop k a) \<and>
           Decoded ct e' h a f (i + (new_in_Pos rep - in_Pos ib)) (k + length (written rep)) \<and>
           (hint rep = 0 \<longrightarrow>
              i + (new_in_Pos rep - in_Pos ib) = length f \<and> k + length (written rep) = length a) \<and>
           (hint rep \<noteq> 0 \<and> new_in_Pos rep = in_Pos ib \<and> written rep = [] \<and>
            (avail ib \<noteq> [] \<or> i = length f) \<longrightarrow>
              dwork ct e' h < dwork ct e h)"
    unfolding decompress_ok_def by (rule conjunct2)
  show ?thesis
    by (rule step[rule_format, of a f e h i k ob ib rep e']) (use assms(2-) in blast)
qed

lemma length_avail: "in_Size ib \<le> length (in_Src ib) \<Longrightarrow> length (avail ib) = in_Size ib - in_Pos ib"
  by (simp add: avail_def)

lemma avail_advance:
  "in_Pos ib \<le> n \<Longrightarrow> avail (ib\<lparr>in_Pos := n\<rparr>) = drop (n - in_Pos ib) (avail ib)"
  by (simp add: avail_def)

lemma int_of_uint64_small: "n < 2 ^ 63 \<Longrightarrow> int_of_uint64 n = int n"
  by (simp add: int_of_uint64_def)

lemma take_overlay: "length ws \<le> length region \<Longrightarrow> take (length ws) (overlay ws region) = ws"
  by (simp add: overlay_def)

lemma overlay_Nil_iff [simp]: "overlay ws region = [] \<longleftrightarrow> region = []"
  by (metis length_overlay length_0_conv)


lemma decode_tracks:
  fixes z :: "'e Zstd" and r :: "byte list Reader"
  assumes ok: "decompress_ok z ct"
    and t: "tracks ct a f (r, st) i j d d"
    and s: "r_stream r \<noteq> 0" and pe: "r_pos r = 0" "r_end r = 0" and ne: "\<not> r_streamEnded r"
    and pr: "avail (r_inBuffer r) \<noteq> [] \<or> i = length f"
  shows "\<exists>r' st' i' k'. tracks ct a f (r', st') i' j k' d \<and> r_pos r' = 0 \<and>
           r_stream r' = r_stream r \<and> r_end r' = int (k' - d) \<and>
           (Read_decode z (r, st) = Next (r', st') \<and> k' = d \<and> \<not> r_streamEnded r' \<and>
              ((length f - i', dwork ct (estate st') (r_stream r)),
               (length f - i, dwork ct (estate st) (r_stream r))) \<in> less_than <*lex*> less_than
            \<or> Read_decode z (r, st) = Stop ((r', st'), None) \<and> (k' = d \<longrightarrow> r_streamEnded r'))"
proof -
  let ?ib = "r_inBuffer r" and ?rb = "r_readBuffer r" and ?h = "r_stream r"
  from t s have
    fr: "Frame ct a f" and buf: "r_buffer r \<noteq> []" and rbl: "length ?rb < 2 ^ 63"
    and ij: "i \<le> j" "j \<le> length f" and ka: "d \<le> length a" and rd: "r_reader r = drop j f"
    and ib: "in_Pos ?ib \<le> in_Size ?ib" "in_Size ?ib \<le> length (in_Src ?ib)"
    and av: "avail ?ib = take (j - i) (drop i f)"
    and dec: "Decoded ct (estate st) ?h a f i d" and rbn: "?rb \<noteq> []"
    by (auto simp: tracks_def)
  have la: "length (avail ?ib) = j - i" using av ij by simp
  obtain rep r1 st1 where ds: "decompress_step z r st = (rep, r1, st1)"
    by (cases "decompress_step z r st") auto
  note p = decompress_step_props[OF ds]
  have c: "isError z (hint rep) = 0 \<and>
         in_Pos ?ib \<le> new_in_Pos rep \<and> new_in_Pos rep \<le> in_Size ?ib \<and>
         length (written rep) \<le> out_Size \<lparr>out_Size = length ?rb, out_Pos = 0\<rparr> \<and>
         d + length (written rep) \<le> length a \<and>
         written rep = take (length (written rep)) (drop d a) \<and>
         Decoded ct (estate st1) ?h a f (i + (new_in_Pos rep - in_Pos ?ib)) (d + length (written rep)) \<and>
         (hint rep = 0 \<longrightarrow>
            i + (new_in_Pos rep - in_Pos ?ib) = length f \<and> d + length (written rep) = length a) \<and>
         (hint rep \<noteq> 0 \<and> new_in_Pos rep = in_Pos ?ib \<and> written rep = [] \<and>
          (avail ?ib \<noteq> [] \<or> i = length f) \<longrightarrow>
            dwork ct (estate st1) ?h < dwork ct (estate st) ?h)"
    by (rule decompress_ok_step[OF ok fr dec _ _ ib _ _ p(3)]) (use rbn la ij av in simp_all)
  define n where "n = length (written rep)"
  define i' where "i' = i + (new_in_Pos rep - in_Pos ?ib)"
  from c have ne0: "isError z (hint rep) = 0" and pos: "in_Pos ?ib \<le> new_in_Pos rep"
    "new_in_Pos rep \<le> in_Size ?ib" and nl: "n \<le> length ?rb" and dn: "d + n \<le> length a"
    and wr: "written rep = take n (drop d a)"
    and dec': "Decoded ct (estate st1) ?h a f i' (d + n)"
    and fin: "hint rep = 0 \<longrightarrow> i' = length f \<and> d + n = length a"
    unfolding n_def i'_def ZstdOutBuffer.simps by blast+
  have i'j: "i' \<le> j" "i \<le> i'"
    using pos la length_avail[OF ib(2)] ij by (simp_all add: i'_def)
  let ?r2 = "r1\<lparr>r_end := int n\<rparr>"
  have r2: "int_of_uint64 (out_Pos (r_outBuffer r1)) = int n"
    using nl rbl by (simp add: p(1) n_def int_of_uint64_small)
  have av': "avail (r_inBuffer r1) = take (j - i') (drop i' f)"
    using pos(1) av by (simp add: p(1) avail_advance i'_def drop_take add.commute)
  have tw: "take n (r_readBuffer r1) = written rep"
    using nl take_overlay[of "written rep" ?rb] by (simp add: p(1) n_def)
  have staged: "take n (drop 0 (r_readBuffer r1)) = take n (drop d a)"
    unfolding drop_0 tw by (rule wr)
  have tr: "tracks ct a f (?r2\<lparr>r_streamEnded := e\<rparr>, st1) i' j (d + n) d"
    if "e \<longrightarrow> i' = length f \<and> d + n = length a" for e
    using that fr buf rbl ij i'j dn rd pos ib av' dec' rbn s pe staged nl
    by (auto simp: tracks_def p(1))
  have "\<not> r_streamEnded r1" using ne by (simp add: p(1))
  then have "?r2\<lparr>r_streamEnded := False\<rparr> = ?r2" by (cases r1) simp
  with tr[of False] have tr0: "tracks ct a f (?r2, st1) i' j (d + n) d" by simp
  show ?thesis
  proof (cases "hint rep = 0")
    case True
    have "Read_decode z (r, st) = Stop ((?r2\<lparr>r_streamEnded := True\<rparr>, st1), None)"
      using ds ne0 rbn True r2 by (simp add: Read_decode_def Let_def)
    with tr[of True] fin True show ?thesis
      apply -
      apply (rule exI[of _ "?r2\<lparr>r_streamEnded := True\<rparr>"], rule exI[of _ st1])
      apply (rule exI[of _ i'], rule exI[of _ "d + n"])
      by (simp add: p(1) pe s)
  next
    case h: False
    show ?thesis
    proof (cases "n = 0")
      case False
      have "Read_decode z (r, st) = Stop ((?r2, st1), None)"
        using ds ne0 rbn h r2 False by (simp add: Read_decode_def Let_def)
      with tr0 False show ?thesis
        apply -
        apply (rule exI[of _ ?r2], rule exI[of _ st1])
        apply (rule exI[of _ i'], rule exI[of _ "d + n"])
        by (simp add: p(1) pe s)
    next
      case True
      have nx: "Read_decode z (r, st) = Next (?r2, st1)"
        using ds ne0 rbn h r2 True by (simp add: Read_decode_def Let_def)
      have m: "((length f - i', dwork ct (estate st1) ?h),
               (length f - i, dwork ct (estate st) ?h)) \<in> less_than <*lex*> less_than"
      proof (cases "new_in_Pos rep = in_Pos ?ib")
        case True
        with c h \<open>n = 0\<close> pr have "dwork ct (estate st1) ?h < dwork ct (estate st) ?h"
          by (simp add: n_def)
        with True show ?thesis by (simp add: i'_def)
      next
        case False
        with pos have "i < i'" by (simp add: i'_def)
        with i'j ij have "length f - i' < length f - i" by arith
        then show ?thesis by simp
      qed
      from nx tr0 True m ne show ?thesis
        apply -
        apply (rule exI[of _ ?r2], rule exI[of _ st1])
        apply (rule exI[of _ i'], rule exI[of _ "d + n"])
        by (simp add: p(1) pe s)
    qed
  qed
qed


lemma ensure_tracks:
  fixes z :: "'e Zstd" and r :: "byte list Reader"
  assumes ok: "decompress_ok z ct" and t: "tracks ct a f (r, st) i j d d"
  shows "\<exists>st1 r1. ensure_stream z r st = (st1, Some r1) \<and> r_stream r1 \<noteq> 0 \<and>
           tracks ct a f (r1, st1) i j d d \<and> r_pos r1 = r_pos r \<and> r_end r1 = r_end r \<and>
           r_streamEnded r1 = r_streamEnded r \<and> r_inBuffer r1 = r_inBuffer r \<and>
           (r_stream r \<noteq> 0 \<longrightarrow> r1 = r \<and> st1 = st)"
proof (cases "r_stream r = 0")
  case False
  with t show ?thesis by (simp add: ensure_stream_def)
next
  case True
  obtain h e1 where c: "createDStream z (estate st) = (h, e1)"
    by (cases "createDStream z (estate st)")
  from t have fr: "Frame ct a f" by (simp add: tracks_def)
  note cr = decompress_ok_create[OF ok c]
  let ?r1 = "r\<lparr>r_stream := h,
                r_readBuffer := (if r_readBuffer r = [] then replicate defaultReadBufferSize 0
                                 else r_readBuffer r)\<rparr>"
  let ?st1 = "log (Ev_createDStream h) (st\<lparr>estate := e1\<rparr>)"
  have e: "ensure_stream z r st = (?st1, Some ?r1)"
    using True c cr(1) by (simp add: ensure_stream_def)
  have "tracks ct a f (?r1, ?st1) i j d d"
    using t True cr(1) cr(2)[OF fr]
    by (auto simp: tracks_def log_def defaultReadBufferSize_def split: if_splits)
  with e cr(1) True show ?thesis by simp
qed

lemma refill_tracks:
  fixes r :: "byte list Reader"
  assumes t: "tracks ct a f (r, st) i j d d"
    and e: "in_Size (r_inBuffer r) \<le> in_Pos (r_inBuffer r)"
  shows "\<exists>r2 st2 n err j'. refill Buffer_Read r st = Ret (r2, st2, n, err) \<and>
           (err = None \<or> err = Some EOF) \<and> \<not> (n = 0 \<and> err = None) \<and>
           tracks ct a f (r2, st2) i j' d d \<and> estate st2 = estate st \<and>
           r_stream r2 = r_stream r \<and> r_pos r2 = r_pos r \<and> r_end r2 = r_end r \<and>
           r_streamEnded r2 = r_streamEnded r \<and>
           (avail (r_inBuffer r2) \<noteq> [] \<or> i = length f)"
proof -
  from t have
    buf: "r_buffer r \<noteq> []" and ij: "i \<le> j" "j \<le> length f" and rd: "r_reader r = drop j f"
    and av: "avail (r_inBuffer r) = take (j - i) (drop i f)"
    by (auto simp: tracks_def)
  from e have "avail (r_inBuffer r) = []" by (simp add: avail_def)
  with av ij have ieq: "i = j" by (cases "i = j") auto
  let ?n0 = "length (r_buffer r)"
  show ?thesis
  proof (cases "drop j f = []")
    case True
    with ij have jl: "j = length f" by simp
    let ?st2 = "log (Ev_source_Read ?n0 [] (Some EOF)) st"
    let ?r2 = "r\<lparr>r_reader := [], r_buffer := overlay [] (r_buffer r), r_inBuffer := empty_in\<rparr>"
    have rf: "refill Buffer_Read r st = Ret (?r2, ?st2, 0, Some EOF)"
      using True rd buf by (simp add: refill_def Buffer_Read_def)
    have "tracks ct a f (?r2, ?st2) i j d d"
      using t jl ieq by (auto simp: tracks_def log_def empty_in_def avail_def)
    with rf jl ieq show ?thesis
      apply -
      apply (rule exI[of _ ?r2], rule exI[of _ ?st2], rule exI[of _ 0])
      apply (rule exI[of _ "Some EOF"], rule exI[of _ j])
      by (simp add: log_def)
  next
    case False
    define data where "data = take ?n0 (drop j f)"
    have dl: "length data = min ?n0 (length f - j)" "data \<noteq> []" "length data \<le> ?n0"
      using False buf by (auto simp: data_def)
    let ?buf = "overlay data (r_buffer r)"
    let ?st2 = "log (Ev_source_Read ?n0 data None) st"
    let ?r2 = "r\<lparr>r_reader := drop ?n0 (drop j f), r_buffer := ?buf,
                 r_inBuffer := \<lparr>in_Src = take (length data) ?buf, in_Size = length data, in_Pos = 0\<rparr>\<rparr>"
    have rf: "refill Buffer_Read r st = Ret (?r2, ?st2, length data, None)"
      using False rd buf dl(2) by (simp add: refill_def Buffer_Read_def data_def Let_def)
    define j' where "j' = j + length data"
    have j': "j' \<le> length f" "i \<le> j'" using dl(1) ij by (simp_all add: j'_def)
    have rd': "drop ?n0 (drop j f) = drop j' f"
      using dl(1) ij by (cases "?n0 \<le> length f - j") (simp_all add: j'_def add.commute min_def)
    have td: "take (length data) ?buf = data" using dl(3) by (rule take_overlay)
    have av': "avail \<lparr>in_Src = take (length data) ?buf, in_Size = length data, in_Pos = 0\<rparr> =
               take (j' - i) (drop i f)"
    proof -
      have "avail \<lparr>in_Src = take (length data) ?buf, in_Size = length data, in_Pos = 0\<rparr> = data"
        by (simp add: avail_def td)
      also have "data = take (length data) (drop j f)"
        unfolding data_def by (metis append_eq_conv_conj append_take_drop_id)
      finally show ?thesis by (simp add: ieq j'_def)
    qed
    have "tracks ct a f (?r2, ?st2) i j' d d"
      using t j' rd' av' td by (auto simp: tracks_def log_def)
    moreover have "avail (r_inBuffer ?r2) \<noteq> []"
      using dl(2) by (simp add: avail_def td)
    ultimately show ?thesis using rf
      apply -
      apply (rule exI[of _ ?r2], rule exI[of _ ?st2], rule exI[of _ "length data"])
      apply (rule exI[of _ None], rule exI[of _ j'])
      using dl(2) by (simp add: log_def)
  qed
qed


lemma Read_body_step:
  fixes z :: "'e Zstd" and r :: "byte list Reader"
  assumes ok: "decompress_ok z ct"
    and t: "tracks ct a f (r, st) i j d d"
    and pe: "r_pos r = 0" "r_end r = 0" and ne: "\<not> r_streamEnded r"
  shows "\<exists>r' st' i' j' k'. tracks ct a f (r', st') i' j' k' d \<and> r_pos r' = 0 \<and>
           r_end r' = int (k' - d) \<and>
           (Read_body z Buffer_Read (r, st) = Next (r', st') \<and> k' = d \<and> \<not> r_streamEnded r' \<and>
              ((if r_stream r' = 0 then 1 else 0 :: nat, length f - i',
                dwork ct (estate st') (r_stream r')),
               (if r_stream r = 0 then 1 else 0, length f - i,
                dwork ct (estate st) (r_stream r)))
                \<in> less_than <*lex*> less_than <*lex*> less_than
            \<or> Read_body z Buffer_Read (r, st) = Stop ((r', st'), None) \<and>
               (k' = d \<longrightarrow> r_streamEnded r'))"
proof -
  from ensure_tracks[OF ok t] obtain st1 r1 where
    es: "ensure_stream z r st = (st1, Some r1)" and s1: "r_stream r1 \<noteq> 0"
    and t1: "tracks ct a f (r1, st1) i j d d"
    and f1: "r_pos r1 = 0" "r_end r1 = 0" "\<not> r_streamEnded r1"
    and same: "r_stream r \<noteq> 0 \<longrightarrow> r1 = r \<and> st1 = st"
    using pe ne by auto
  have "\<exists>r2 st2 j'. tracks ct a f (r2, st2) i j' d d \<and> r_stream r2 = r_stream r1 \<and>
          estate st2 = estate st1 \<and> r_pos r2 = 0 \<and> r_end r2 = 0 \<and> \<not> r_streamEnded r2 \<and>
          (avail (r_inBuffer r2) \<noteq> [] \<or> i = length f) \<and>
          Read_body z Buffer_Read (r, st) = Read_decode z (r2, st2)"
  proof (cases "in_Size (r_inBuffer r1) \<le> in_Pos (r_inBuffer r1)")
    case True
    from refill_tracks[OF t1 True] obtain r2 st2 n err j' where
      rf: "refill Buffer_Read r1 st1 = Ret (r2, st2, n, err)"
      and er: "err = None \<or> err = Some EOF" "\<not> (n = 0 \<and> err = None)"
      and t2: "tracks ct a f (r2, st2) i j' d d" and e2: "estate st2 = estate st1"
      and f2: "r_stream r2 = r_stream r1" "r_pos r2 = r_pos r1" "r_end r2 = r_end r1"
        "r_streamEnded r2 = r_streamEnded r1"
      and pr: "avail (r_inBuffer r2) \<noteq> [] \<or> i = length f"
      by blast
    have "Read_body z Buffer_Read (r, st) = Read_decode z (r2, st2)"
      using pe ne es True rf er by (auto simp: Read_body_def)
    with t2 e2 f2 f1 pr show ?thesis by auto
  next
    case False
    from t1 have "in_Size (r_inBuffer r1) \<le> length (in_Src (r_inBuffer r1))"
      by (simp add: tracks_def)
    from length_avail[OF this] False have "avail (r_inBuffer r1) \<noteq> []" by auto
    moreover have "Read_body z Buffer_Read (r, st) = Read_decode z (r1, st1)"
      using pe ne es False by (simp add: Read_body_def)
    ultimately show ?thesis using t1 f1 by auto
  qed
  then obtain r2 st2 j' where t2: "tracks ct a f (r2, st2) i j' d d"
    and f2: "r_stream r2 = r_stream r1" "estate st2 = estate st1" "r_pos r2 = 0" "r_end r2 = 0"
      "\<not> r_streamEnded r2"
    and pr: "avail (r_inBuffer r2) \<noteq> [] \<or> i = length f"
    and rb: "Read_body z Buffer_Read (r, st) = Read_decode z (r2, st2)"
    by blast
  have s2: "r_stream r2 \<noteq> 0" using s1 f2 by simp
  from decode_tracks[OF ok t2 s2 f2(3) f2(4) f2(5) pr] obtain r' st' i' k' where
    t': "tracks ct a f (r', st') i' j' k' d" and f': "r_pos r' = 0" "r_stream r' = r_stream r2"
      "r_end r' = int (k' - d)"
    and o: "Read_decode z (r2, st2) = Next (r', st') \<and> k' = d \<and> \<not> r_streamEnded r' \<and>
              ((length f - i', dwork ct (estate st') (r_stream r2)),
               (length f - i, dwork ct (estate st2) (r_stream r2))) \<in> less_than <*lex*> less_than
            \<or> Read_decode z (r2, st2) = Stop ((r', st'), None) \<and> (k' = d \<longrightarrow> r_streamEnded r')"
    by blast
  have m: "((if r_stream r' = 0 then 1 else 0 :: nat, length f - i',
                dwork ct (estate st') (r_stream r')),
               (if r_stream r = 0 then 1 else 0, length f - i,
                dwork ct (estate st) (r_stream r)))
                \<in> less_than <*lex*> less_than <*lex*> less_than"
    if "((length f - i', dwork ct (estate st') (r_stream r2)),
         (length f - i, dwork ct (estate st2) (r_stream r2))) \<in> less_than <*lex*> less_than"
  proof (cases "r_stream r = 0")
    case True
    with s2 f' show ?thesis by simp
  next
    case False
    with same have "r1 = r" "st1 = st" by simp_all
    with that f2 f' s2 False show ?thesis by simp
  qed
  show ?thesis
    apply (rule exI[of _ r'], rule exI[of _ st'], rule exI[of _ i'], rule exI[of _ j'])
    apply (rule exI[of _ k'])
    using t' f' o m rb by auto
qed

lemma Read_loop_total:
  fixes z :: "'e Zstd" and r :: "byte list Reader"
  assumes ok: "decompress_ok z ct"
    and t: "tracks ct a f (r, st) i j d d"
    and pe: "r_pos r = 0" "r_end r = 0" and ne: "\<not> r_streamEnded r"
  shows "\<exists>res. iterate (Read_body z Buffer_Read) (r, st) = Some res \<and>
           (case res of ((r', st'), q) \<Rightarrow> q = None \<and> r_pos r' = 0 \<and>
              (\<exists>i' j' k'. tracks ct a f (r', st') i' j' k' d \<and> r_end r' = int (k' - d) \<and>
                 (k' = d \<longrightarrow> r_streamEnded r')))"
proof -
  let ?I = "\<lambda>g s. case s of (r' :: byte list Reader, st' :: 'e world) \<Rightarrow>
              \<exists>i' j'. tracks ct a f (r', st') i' j' d d \<and> r_pos r' = 0 \<and> r_end r' = 0 \<and>
                 \<not> r_streamEnded r' \<and>
                 g = (if r_stream r' = 0 then 1 else 0 :: nat, length f - i',
                      dwork ct (estate st') (r_stream r'))"
  let ?Q = "\<lambda>res. case res of
              ((r' :: byte list Reader, st' :: 'e world), q :: (int \<times> error option) ret option) \<Rightarrow>
                q = None \<and> r_pos r' = 0 \<and>
                (\<exists>i' j' k'. tracks ct a f (r', st') i' j' k' d \<and> r_end r' = int (k' - d) \<and>
                   (k' = d \<longrightarrow> r_streamEnded r'))"
  show ?thesis
  proof (rule iterate_total[where R = "less_than <*lex*> less_than <*lex*> less_than"
        and g = "(if r_stream r = 0 then 1 else 0, length f - i, dwork ct (estate st) (r_stream r))"
        and I = ?I and Q = ?Q])
    show "wf (less_than <*lex*> less_than <*lex*> less_than)"
      by (intro wf_lex_prod wf_less_than)
    show "?I (if r_stream r = 0 then 1 else 0, length f - i, dwork ct (estate st) (r_stream r)) (r, st)"
      using t pe ne by auto
  next
    fix g s s' assume I: "?I g s" and nx: "Read_body z Buffer_Read s = Next s'"
    obtain r0 st0 where s: "s = (r0, st0)" by (cases s)
    from I s obtain i0 j0 where i0: "tracks ct a f (r0, st0) i0 j0 d d" "r_pos r0 = 0"
      "r_end r0 = 0" "\<not> r_streamEnded r0"
      "g = (if r_stream r0 = 0 then 1 else 0, length f - i0, dwork ct (estate st0) (r_stream r0))"
      by auto
    from Read_body_step[OF ok i0(1-4)] nx s obtain r' st' i' j' where
      n: "s' = (r', st')" "tracks ct a f (r', st') i' j' d d" "r_pos r' = 0" "r_end r' = 0"
        "\<not> r_streamEnded r'"
        "((if r_stream r' = 0 then 1 else 0 :: nat, length f - i',
            dwork ct (estate st') (r_stream r')), g)
          \<in> less_than <*lex*> less_than <*lex*> less_than"
      unfolding i0(5) by auto
    show "\<exists>g'. ?I g' s' \<and> (g', g) \<in> less_than <*lex*> less_than <*lex*> less_than"
      apply (rule exI[of _ "(if r_stream r' = 0 then 1 else 0 :: nat, length f - i',
            dwork ct (estate st') (r_stream r'))"])
      using n by auto
  next
    fix g s res assume I: "?I g s" and sp: "Read_body z Buffer_Read s = Stop res"
    obtain r0 st0 where s: "s = (r0, st0)" by (cases s)
    from I s obtain i0 j0 where i0: "tracks ct a f (r0, st0) i0 j0 d d" "r_pos r0 = 0"
      "r_end r0 = 0" "\<not> r_streamEnded r0"
      by auto
    from Read_body_step[OF ok i0(1-4)] sp s show "?Q res" by auto
  qed
qed


lemma serve_tracks:
  fixes r :: "byte list Reader"
  assumes t: "tracks ct a f (r, st) i j k d" and lt: "r_pos r < r_end r" and p: "p \<noteq> []"
  shows "\<exists>r' p' n. serve r st p = ((r', st), Ret (p', int n, None)) \<and> 0 < n \<and>
           take n p' = take n (drop d a) \<and> tracks ct a f (r', st) i j k (d + n)"
proof -
  let ?rb = "r_readBuffer r"
  from t lt have b: "0 \<le> r_pos r" "r_end r \<le> int (length ?rb)" "r_end r - r_pos r = int (k - d)"
    and eq: "take (k - d) (drop (nat (r_pos r)) ?rb) = take (k - d) (drop d a)"
    and dk: "d \<le> k" "k \<le> length a"
    by (auto simp: tracks_def)
  from b lt have kd: "0 < k - d" "nat (r_end r - r_pos r) = k - d" by simp_all
  define staged where "staged = take (k - d) (drop d a)"
  have ls: "length staged = k - d" using dk by (simp add: staged_def)
  have gs: "go_slice ?rb (r_pos r) (r_end r) = Some staged"
    using b lt kd(2) eq by (simp add: go_slice_def staged_def)
  define n where "n = min (length p) (k - d)"
  have n: "0 < n" "n \<le> k - d" "n \<le> length p" using p kd(1) by (simp_all add: n_def)
  let ?p' = "take n staged @ drop n p"
  let ?r' = "r\<lparr>r_pos := r_pos r + int n\<rparr>"
  have sv: "serve r st p = ((?r', st), Ret (?p', int n, None))"
    using gs ls by (simp add: serve_def go_copy_def n_def Let_def)
  have tp: "take n ?p' = take n (drop d a)"
    using n ls by (simp add: staged_def)
  have t': "tracks ct a f (?r', st) i j k (d + n)"
  proof (cases "r_pos r + int n < r_end r")
    case True
    have "take (k - (d + n)) (drop (nat (r_pos r + int n)) ?rb) =
          drop n (take (k - d) (drop (nat (r_pos r)) ?rb))"
      using b(1) by (simp add: drop_take nat_add_distrib add.commute)
    also have "\<dots> = drop n (take (k - d) (drop d a))" by (simp only: eq)
    also have "\<dots> = take (k - (d + n)) (drop (d + n) a)"
      by (simp add: drop_take add.commute)
    finally have e': "take (k - (d + n)) (drop (nat (r_pos r + int n)) ?rb) =
                      take (k - (d + n)) (drop (d + n) a)" .
    from True b n have "r_end r - (r_pos r + int n) = int (k - (d + n))" by simp
    with t True e' b n dk show ?thesis by (auto simp: tracks_def)
  next
    case False
    with b n have "n = k - d" by simp
    with t False dk show ?thesis by (auto simp: tracks_def)
  qed
  from sv n(1) tp t' show ?thesis by blast
qed

lemma tracks_ended:
  fixes r :: "byte list Reader"
  assumes "tracks ct a f (r, st) i j k d" and "\<not> r_pos r < r_end r" and "r_streamEnded r"
  shows "d = length a" and "r_reader r = []"
  using assms by (auto simp: tracks_def)

lemma Read_tracks:
  fixes z :: "'e Zstd" and r :: "byte list Reader"
  assumes ok: "decompress_ok z ct" and t: "tracks ct a f (r, st) i j k d" and p: "p \<noteq> []"
  shows "\<exists>r' st' p' n err i' j' k'.
           Read z Buffer_Read r st p = Some ((r', st'), Ret (p', int n, err)) \<and>
           tracks ct a f (r', st') i' j' k' (d + n) \<and> take n p' = take n (drop d a) \<and>
           (err = None \<and> 0 < n \<or> err = Some EOF \<and> n = 0 \<and> d = length a \<and> r_reader r' = [])"
proof (cases "r_pos r < r_end r")
  case True
  from serve_tracks[OF t True p] obtain r' p' n where
    s: "serve r st p = ((r', st), Ret (p', int n, None))" "0 < n"
      "take n p' = take n (drop d a)" "tracks ct a f (r', st) i j k (d + n)" by blast
  have "Read z Buffer_Read r st p = Some ((r', st), Ret (p', int n, None))"
    using True s(1) by (simp add: Read_def)
  with s show ?thesis by blast
next
  case ns: False
  show ?thesis
  proof (cases "r_streamEnded r")
    case True
    have "Read z Buffer_Read r st p = Some ((r, st), Ret (p, int 0, Some EOF))"
      using ns True by (simp add: Read_def)
    with tracks_ended[OF t ns True] t show ?thesis
      apply -
      apply (rule exI[of _ r], rule exI[of _ st], rule exI[of _ p], rule exI[of _ 0])
      apply (rule exI[of _ "Some EOF"], rule exI[of _ i], rule exI[of _ j], rule exI[of _ k])
      by simp
  next
    case False
    let ?r0 = "r\<lparr>r_pos := 0, r_end := 0\<rparr>"
    from t ns have dk: "d = k" by (auto simp: tracks_def)
    have t0: "tracks ct a f (?r0, st) i j d d"
      using t ns dk by (auto simp: tracks_def)
    have "\<exists>res. iterate (Read_body z Buffer_Read) (?r0, st) = Some res \<and>
           (case res of ((r', st'), q) \<Rightarrow> q = None \<and> r_pos r' = 0 \<and>
              (\<exists>i' j' k'. tracks ct a f (r', st') i' j' k' d \<and> r_end r' = int (k' - d) \<and>
                 (k' = d \<longrightarrow> r_streamEnded r')))"
      by (rule Read_loop_total[OF ok t0]) (use False in simp_all)
    then obtain r1 st1 i' j' k' where
      it: "iterate (Read_body z Buffer_Read) (?r0, st) = Some ((r1, st1), None)"
      and r1: "r_pos r1 = 0" "tracks ct a f (r1, st1) i' j' k' d" "r_end r1 = int (k' - d)"
        "k' = d \<longrightarrow> r_streamEnded r1"
      by auto
    from r1(2) have dk': "d \<le> k'" by (simp add: tracks_def)
    show ?thesis
    proof (cases "k' = d")
      case True
      with r1 have e: "r_end r1 = 0" "r_streamEnded r1" by simp_all
      have "Read z Buffer_Read r st p = Some ((r1, st1), Ret (p, int 0, Some EOF))"
        using ns False it e by (simp add: Read_def)
      moreover have "\<not> r_pos r1 < r_end r1" using r1(1) e(1) by simp
      note tracks_ended[OF r1(2) this e(2)]
      ultimately show ?thesis using r1(2)
        apply -
        apply (rule exI[of _ r1], rule exI[of _ st1], rule exI[of _ p], rule exI[of _ 0])
        apply (rule exI[of _ "Some EOF"], rule exI[of _ i'], rule exI[of _ j'], rule exI[of _ k'])
        by simp
    next
      case kd: False
      with dk' r1 have lt: "r_pos r1 < r_end r1" "r_end r1 \<noteq> 0" by simp_all
      from serve_tracks[OF r1(2) lt(1) p] obtain r' p' n where
        s: "serve r1 st1 p = ((r', st1), Ret (p', int n, None))" "0 < n"
          "take n p' = take n (drop d a)" "tracks ct a f (r', st1) i' j' k' (d + n)" by blast
      have "Read z Buffer_Read r st p = Some ((r', st1), Ret (p', int n, None))"
        using ns False it lt(2) s(1) by (simp add: Read_def)
      with s show ?thesis by blast
    qed
  qed
qed

lemma ReadAll_total:
  fixes z :: "'e Zstd" and r :: "byte list Reader"
  assumes ok: "decompress_ok z ct" and room: "\<And>l. 0 < room l"
    and t: "tracks ct a f (r, st) i j k d"
  shows "\<exists>r' st'. ReadAll z Buffer_Read room (r, st) (take d a) = Some ((r', st'), Ret (a, None)) \<and>
           r_reader r' = []"
  using t
proof (induction "length a - d" arbitrary: r st i j k d rule: less_induct)
  case less
  let ?p = "replicate (room (d)) (0 :: byte)"
  from less.prems have dl: "d \<le> length a" by (simp add: tracks_def)
  have ld: "min (length a) d = d" using dl by simp
  have lp: "replicate (room d) (0 :: byte) \<noteq> []"
    using room[of d] by simp
  from Read_tracks[OF ok less.prems lp] obtain r' st' p' n err i' j' k' where
    rd: "Read z Buffer_Read r st (replicate (room d) 0) =
           Some ((r', st'), Ret (p', int n, err))"
    and t': "tracks ct a f (r', st') i' j' k' (d + n)"
    and tk: "take n p' = take n (drop d a)"
    and o: "err = None \<and> 0 < n \<or> err = Some EOF \<and> n = 0 \<and> d = length a \<and> r_reader r' = []"
    by blast
  from t' have dn: "d + n \<le> length a" by (simp add: tracks_def)
  have acc: "take d a @ take n p' = take (d + n) a"
    by (simp add: tk take_add)
  from o show ?case
  proof
    assume e: "err = None \<and> 0 < n"
    with dn have "length a - (d + n) < length a - d" by arith
    from less.hyps[OF this t'] obtain r'' st'' where
      ra: "ReadAll z Buffer_Read room (r', st') (take (d + n) a) = Some ((r'', st''), Ret (a, None))"
        "r_reader r'' = []" by blast
    have "ReadAll z Buffer_Read room (r, st) (take d a) =
          ReadAll z Buffer_Read room (r', st') (take (d + n) a)"
      by (subst ReadAll.simps) (simp add: ld rd e acc)
    with ra show ?thesis by auto
  next
    assume e: "err = Some EOF \<and> n = 0 \<and> d = length a \<and> r_reader r' = []"
    then have en: "err = Some EOF" "n = 0" and da: "take d a = a" by simp_all
    have "ReadAll z Buffer_Read room (r, st) (take d a) = Some ((r', st'), Ret (take d a, None))"
      by (subst ReadAll.simps) (simp add: ld rd en)
    with e da show ?thesis by auto
  qed
qed

section \<open>The small engine is a codec\<close>

lemma toy_encode_append: "toy_encode (xs @ ys) = toy_encode xs @ toy_encode ys"
  by (induction xs) auto

lemma length_toy_encode [simp]: "length (toy_encode xs) = 2 * length xs"
  by (induction xs) auto

lemma toy_isError_small: "n \<le> 2 ^ 63 \<Longrightarrow> toy_isError n = 0"
  by (simp add: toy_isError_def)

lemma toy_compress_ok: "compress_ok toy toy_contract"
  unfolding compress_ok_def
proof (intro conjI allI impI)
  fix e :: toy_state
  show "fst (createCStream toy e) \<noteq> 0" by (simp add: toy_def)
  show "Absorbed toy_contract (snd (createCStream toy e)) (fst (createCStream toy e)) [] [] False"
    by (simp add: toy_def toy_contract_def)
next
  fix e e' :: toy_state and h a out fin ob ib m and rep :: step_reply
  assume A: "Absorbed toy_contract e h a out fin \<and> out_Pos ob = 0 \<and> 0 < out_Size ob \<and>
         in_Pos ib \<le> in_Size ib \<and> in_Size ib \<le> length (in_Src ib) \<and>
         (m = EndContinue \<or> m = EndFlush \<or> m = EndEnd) \<and>
         (fin \<longrightarrow> m = EndEnd \<and> avail ib = []) \<and>
         compressStream2 toy h ob ib m e = (rep, e')"
  define pend where "pend = c_pending e @ toy_encode (avail ib) @
                 (if m = EndEnd \<and> \<not> c_ended e then [0] else [])"
  from A have ab: "c_ended e = fin" "out @ c_pending e = toy_encode a @ (if fin then [0] else [])"
    and cap: "0 < out_Size ob" and ib: "in_Pos ib \<le> in_Size ib" "in_Size ib \<le> length (in_Src ib)"
    and fin: "fin \<longrightarrow> m = EndEnd \<and> avail ib = []"
    by (simp_all add: toy_contract_def)
  have "toy_compressStream2 h ob ib m e =
      (\<lparr>hint = min (length (drop (out_Size ob) pend)) (2 ^ 63),
        written = take (out_Size ob) pend, new_in_Pos = in_Size ib\<rparr>,
       e\<lparr>c_pending := drop (out_Size ob) pend, c_ended := (c_ended e \<or> m = EndEnd)\<rparr>)"
    unfolding toy_compressStream2_def pend_def avail_def Let_def by (rule refl)
  moreover from A have "toy_compressStream2 h ob ib m e = (rep, e')" by (simp add: toy_def)
  ultimately have rep: "hint rep = min (length (drop (out_Size ob) pend)) (2 ^ 63)"
    "written rep = take (out_Size ob) pend" "new_in_Pos rep = in_Size ib"
    and e': "c_pending e' = drop (out_Size ob) pend" "c_ended e' = (c_ended e \<or> m = EndEnd)"
    by auto
  have tk: "take (new_in_Pos rep - in_Pos ib) (avail ib) = avail ib"
    using length_avail[OF ib(2)] by (simp add: rep)
  have tot: "out @ pend = toy_encode (a @ avail ib) @ (if m = EndEnd then [0] else [])"
  proof (cases fin)
    case True
    with fin ab show ?thesis by (simp add: pend_def)
  next
    case False
    with ab have "out @ c_pending e = toy_encode a" "\<not> c_ended e" by simp_all
    then show ?thesis by (simp add: pend_def toy_encode_append del: append_assoc add: append_assoc[symmetric])
  qed
  show "isError toy (hint rep) = 0"
    by (simp add: toy_def rep toy_isError_small)
  show "in_Pos ib \<le> new_in_Pos rep" "new_in_Pos rep \<le> in_Size ib"
    using ib by (simp_all add: rep)
  show "length (written rep) \<le> out_Size ob" by (simp add: rep)
  show "Absorbed toy_contract e' h (a @ take (new_in_Pos rep - in_Pos ib) (avail ib))
          (out @ written rep) (m = EndEnd)"
  proof -
    have "(out @ written rep) @ c_pending e' = out @ pend" by (simp add: rep e')
    with tot ab fin show ?thesis
      by (auto simp: toy_contract_def tk e')
  qed
  show "cwork toy_contract e' h < cwork toy_contract e h"
    if "new_in_Pos rep = in_Pos ib \<and>
        (if m = EndContinue then in_Pos ib < in_Size ib else hint rep \<noteq> 0)"
  proof -
    from that ib have eq: "in_Pos ib = in_Size ib" by (simp add: rep)
    with that have m0: "m \<noteq> EndContinue" and hn: "hint rep \<noteq> 0" by (auto split: if_splits)
    from eq have av: "avail ib = []" by (simp add: avail_def)
    from hn have ne: "drop (out_Size ob) pend \<noteq> []" by (auto simp: rep min_def split: if_splits)
    then have lp: "out_Size ob < length pend" by simp
    show ?thesis
      using lp cap by (auto simp: toy_contract_def e' pend_def av)
  qed
  show "new_in_Pos rep = in_Size ib" if "m = EndEnd \<and> hint rep = 0"
    by (simp add: rep)
  show "Frame toy_contract (a @ avail ib) (out @ written rep)" if "m = EndEnd \<and> hint rep = 0"
  proof -
    from that have "drop (out_Size ob) pend = []" by (simp add: rep min_def split: if_splits)
    then have "written rep = pend" by (simp add: rep)
    with tot that show ?thesis by (simp add: toy_contract_def)
  qed
qed


lemma toy_scan_chunk:
  "l \<le> 2 * length ys + 1 \<Longrightarrow>
   toy_scan False (take l (toy_encode ys @ [0])) =
     (if l = 2 * length ys + 1 then (ys, l, False, True, False)
      else (take (l div 2) ys, l, odd l, False, False))"
proof (induction ys arbitrary: l)
  case Nil
  then show ?case by (cases l) auto
next
  case (Cons y ys)
  show ?case
  proof (cases l)
    case 0
    then show ?thesis by simp
  next
    case (Suc l1)
    show ?thesis
    proof (cases l1)
      case 0
      with Suc show ?thesis by simp
    next
      case (Suc l2)
      with \<open>l = Suc l1\<close> Cons.prems have "l2 \<le> 2 * length ys + 1" by simp
      from Cons.IH[OF this] Suc \<open>l = Suc l1\<close> show ?thesis by auto
    qed
  qed
qed

lemma toy_scan_True_Cons:
  "toy_scan True (b # bs) = (case toy_scan False bs of (d, n, r) \<Rightarrow> (b # d, Suc n, r))"
  by (simp split: prod.splits)

lemma drop_toy_encode: "drop (2 * m) (toy_encode a) = toy_encode (drop m a)"
proof (induction a arbitrary: m)
  case Nil
  then show ?case by simp
next
  case (Cons x xs)
  then show ?case by (cases m) auto
qed

lemma drop_frame_even:
  "m \<le> length a \<Longrightarrow> drop (2 * m) (toy_encode a @ [0]) = toy_encode (drop m a) @ [0]"
  by (simp add: drop_toy_encode)

lemma drop_frame_odd:
  assumes "m < length a"
  shows "drop (2 * m + 1) (toy_encode a @ [0]) = a ! m # (toy_encode (drop (Suc m) a) @ [0])"
proof -
  have "drop (2 * m + 1) (toy_encode a @ [0]) = drop 1 (drop (2 * m) (toy_encode a @ [0]))"
    by (metis drop_drop add.commute)
  also have "drop (2 * m) (toy_encode a @ [0]) = toy_encode (drop m a) @ [0]"
    using assms by (intro drop_frame_even) simp
  also have "drop m a = a ! m # drop (Suc m) a"
    using assms by (simp add: Cons_nth_drop_Suc)
  finally show ?thesis by simp
qed

lemma toy_scan_frame:
  assumes il: "i + l \<le> 2 * length a + 1" and i: "i \<le> 2 * length a"
  shows "toy_scan (odd i) (take l (drop i (toy_encode a @ [0]))) =
     (if i + l = 2 * length a + 1 then (drop (i div 2) a, l, False, True, False)
      else (take ((i + l) div 2 - i div 2) (drop (i div 2) a), l, odd (i + l), False, False))"
proof (cases "odd i")
  case False
  then obtain m where m: "i = 2 * m" by (auto elim: evenE)
  with i have ml: "m \<le> length a" by simp
  have l: "l \<le> 2 * length (drop m a) + 1" using il m ml by simp
  have e: "(i + l) div 2 - m = l div 2" "odd (i + l) = odd l"
    "(i + l = 2 * length a + 1) = (l = 2 * length (drop m a) + 1)" "i div 2 = m"
    using m ml by auto
  note dfe = drop_frame_even[OF ml, folded m]
  have "toy_scan (odd i) (take l (drop i (toy_encode a @ [0]))) =
        toy_scan False (take l (toy_encode (drop m a) @ [0]))"
    unfolding dfe using False by simp
  also have "\<dots> = (if l = 2 * length (drop m a) + 1 then (drop m a, l, False, True, False)
      else (take (l div 2) (drop m a), l, odd l, False, False))"
    by (rule toy_scan_chunk[OF l])
  also have "\<dots> = (if i + l = 2 * length a + 1 then (drop (i div 2) a, l, False, True, False)
      else (take ((i + l) div 2 - i div 2) (drop (i div 2) a), l, odd (i + l), False, False))"
    unfolding e by (rule refl)
  finally show ?thesis .
next
  case True
  then obtain m where m: "i = 2 * m + 1" by (auto elim: oddE)
  with i have ml: "m < length a" by simp
  note df = drop_frame_odd[OF ml, folded m]
  show ?thesis
  proof (cases l)
    case 0
    with True i show ?thesis by simp
  next
    case (Suc l1)
    have l: "l1 \<le> 2 * length (drop (Suc m) a) + 1" using il m ml Suc by simp
    have e: "(i + l) div 2 - m = Suc (l1 div 2)" "odd (i + l) = odd l1"
      "(i + l = 2 * length a + 1) = (l1 = 2 * length (drop (Suc m) a) + 1)"
      "i div 2 = m"
      using m ml Suc by auto
    have d: "drop m a = a ! m # drop (Suc m) a" using ml by (simp add: Cons_nth_drop_Suc)
    have "toy_scan (odd i) (take l (drop i (toy_encode a @ [0]))) =
          toy_scan True (a ! m # take l1 (toy_encode (drop (Suc m) a) @ [0]))"
      unfolding df Suc using True by simp
    also have "\<dots> = (if l1 = 2 * length (drop (Suc m) a) + 1
                     then (drop m a, l, False, True, False)
                     else (take (Suc (l1 div 2)) (drop m a), l, odd l1, False, False))"
      by (subst toy_scan_True_Cons, subst toy_scan_chunk[OF l]) (simp add: d Suc)
    also have "\<dots> = (if i + l = 2 * length a + 1 then (drop (i div 2) a, l, False, True, False)
      else (take ((i + l) div 2 - i div 2) (drop (i div 2) a), l, odd (i + l), False, False))"
      unfolding e by (rule refl)
    finally show ?thesis .
  qed
qed

lemma prefix_take:
  assumes "take k a @ w @ rest = take m a" and "k \<le> length a"
  shows "w = take (length w) (drop k a)" and "take (k + length w) a = take k a @ w"
    and "k + length w \<le> length a"
proof -
  from arg_cong[OF assms(1), of "drop k"] assms(2)
  have e: "w @ rest = take (m - k) (drop k a)" by (simp add: drop_take)
  from arg_cong[OF e, of length] have lw: "length w \<le> m - k" "length w \<le> length a - k"
    by simp_all
  have "take (length w) (w @ rest) = w" by simp
  then have "take (length w) (take (m - k) (drop k a)) = w" by (simp only: e)
  with lw(1) show w: "w = take (length w) (drop k a)" by (simp add: min_def)
  from lw(2) assms(2) show "k + length w \<le> length a" by simp
  show "take (k + length w) a = take k a @ w"
    using w by (simp add: take_add)
qed


lemma toy_decode_step:
  assumes D: "toy_decoded e a i k" and cap: "0 < cap"
    and il: "i + length inp \<le> 2 * length a + 1"
    and inp: "inp = take (length inp) (drop i (toy_encode a @ [0]))"
  shows "\<exists>d n ex' dn.
           (if d_done e then ([], 0, False, True, False) else toy_scan (d_expect_data e) inp) =
             (d, n, ex', dn, False) \<and>
           (n = length inp \<or> n = 0 \<and> d_done e) \<and>
           (let pend = d_pending e @ d; w = take cap pend; rest = drop cap pend;
                e' = e\<lparr>d_pending := rest, d_expect_data := ex', d_done := dn\<rparr>
            in k + length w \<le> length a \<and> w = take (length w) (drop k a) \<and>
               toy_decoded e' a (i + n) (k + length w) \<and>
               (dn \<and> rest = [] \<longrightarrow> i + n = 2 * length a + 1 \<and> k + length w = length a) \<and>
               (n = 0 \<and> w = [] \<and> (inp \<noteq> [] \<or> i = 2 * length a + 1) \<longrightarrow> dn \<and> rest = []))"
proof -
  from D have ka: "k \<le> length a" by (simp add: toy_decoded_def)
  define l where "l = length inp"
  have core: "\<exists>d n ex' dn M.
           (if d_done e then ([], 0, False, True, False) else toy_scan (d_expect_data e) inp) =
             (d, n, ex', dn, False) \<and>
           (n = l \<or> n = 0 \<and> d_done e) \<and> (\<not> d_done e \<longrightarrow> n = l) \<and>
           take k a @ d_pending e @ d = take M a \<and> M \<le> length a \<and>
           (if dn then i + n = 2 * length a + 1 \<and> M = length a
            else i + n \<le> 2 * length a \<and> ex' = odd (i + n) \<and> M = (i + n) div 2)"
  proof (cases "d_done e")
    case True
    with D have "i = 2 * length a + 1" "take k a @ d_pending e = a" by (simp_all add: toy_decoded_def)
    with True show ?thesis
      apply -
      apply (rule exI[of _ "[]"], rule exI[of _ 0], rule exI[of _ False], rule exI[of _ True])
      apply (rule exI[of _ "length a"])
      by simp
  next
    case False
    with D have i: "i \<le> 2 * length a" and ex: "d_expect_data e = odd i"
      and pk: "take k a @ d_pending e = take (i div 2) a" by (simp_all add: toy_decoded_def)
    have sc: "toy_scan (d_expect_data e) inp =
       (if i + l = 2 * length a + 1 then (drop (i div 2) a, l, False, True, False)
        else (take ((i + l) div 2 - i div 2) (drop (i div 2) a), l, odd (i + l), False, False))"
      unfolding ex by (subst inp, fold l_def) (rule toy_scan_frame[OF il[folded l_def] i])
    show ?thesis
    proof (cases "i + l = 2 * length a + 1")
      case True
      have "take k a @ d_pending e @ drop (i div 2) a = take (length a) a"
        using pk by (simp add: append_assoc[symmetric] del: append_assoc)
      with False sc True show ?thesis
        apply -
        apply (rule exI[of _ "drop (i div 2) a"], rule exI[of _ l], rule exI[of _ False])
        apply (rule exI[of _ True], rule exI[of _ "length a"])
        by simp
    next
      case ne: False
      with il have le: "i + l \<le> 2 * length a" by (simp add: l_def)
      have "take (i div 2) a @ take ((i + l) div 2 - i div 2) (drop (i div 2) a) =
            take ((i + l) div 2) a"
        by (rule take_more) (simp add: div_le_mono)
      then have "take k a @ d_pending e @ take ((i + l) div 2 - i div 2) (drop (i div 2) a) =
            take ((i + l) div 2) a"
        using pk by (simp add: append_assoc[symmetric] del: append_assoc)
      with False sc ne le show ?thesis
        apply -
        apply (rule exI[of _ "take ((i + l) div 2 - i div 2) (drop (i div 2) a)"])
        apply (rule exI[of _ l], rule exI[of _ "odd (i + l)"], rule exI[of _ False])
        apply (rule exI[of _ "(i + l) div 2"])
        by simp
    qed
  qed
  then obtain d n ex' dn M where
    sc: "(if d_done e then ([], 0, False, True, False) else toy_scan (d_expect_data e) inp) =
             (d, n, ex', dn, False)"
    and n: "n = l \<or> n = 0 \<and> d_done e" "\<not> d_done e \<longrightarrow> n = l"
    and tk: "take k a @ d_pending e @ d = take M a" and M: "M \<le> length a"
    and st: "if dn then i + n = 2 * length a + 1 \<and> M = length a
            else i + n \<le> 2 * length a \<and> ex' = odd (i + n) \<and> M = (i + n) div 2"
    by blast
  define pend where "pend = d_pending e @ d"
  define w where "w = take cap pend"
  define rest where "rest = drop cap pend"
  have wr: "w @ rest = pend" by (simp add: w_def rest_def)
  have tk': "take k a @ w @ rest = take M a" using tk by (simp add: wr pend_def)
  note pt = prefix_take[OF tk' ka]
  have tr: "take (k + length w) a @ rest = take M a" using tk' pt(2) by simp
  let ?e' = "e\<lparr>d_pending := rest, d_expect_data := ex', d_done := dn\<rparr>"
  have D': "toy_decoded ?e' a (i + n) (k + length w)"
    using st pt(3) tr by (auto simp: toy_decoded_def)
  have fin: "dn \<and> rest = [] \<longrightarrow> i + n = 2 * length a + 1 \<and> k + length w = length a"
  proof (intro impI, elim conjE)
    assume dn and r: "rest = []"
    with st have i': "i + n = 2 * length a + 1" and "M = length a" by simp_all
    with tr r have "take (k + length w) a = a" by simp
    then have "length a \<le> k + length w" by (metis length_take min.cobounded2 min_def)
    with pt(3) i' show "i + n = 2 * length a + 1 \<and> k + length w = length a" by simp
  qed
  have stall: "n = 0 \<and> w = [] \<and> (inp \<noteq> [] \<or> i = 2 * length a + 1) \<longrightarrow> dn \<and> rest = []"
  proof (intro impI, elim conjE)
    assume n0: "n = 0" and w0: "w = []" and pr: "inp \<noteq> [] \<or> i = 2 * length a + 1"
    have dd: "d_done e"
    proof (rule ccontr)
      assume nd: "\<not> d_done e"
      with n(2) n0 have "l = 0" by simp
      then have "inp = []" by (simp add: l_def)
      with pr have "i = 2 * length a + 1" by simp
      with D nd show False by (simp add: toy_decoded_def)
    qed
    with sc have "dn" by simp
    moreover from w0 cap have "pend = []" by (simp add: w_def)
    then have "rest = []" by (simp add: rest_def)
    ultimately show "dn \<and> rest = []" by simp
  qed
  show ?thesis
    apply (rule exI[of _ d], rule exI[of _ n], rule exI[of _ ex'], rule exI[of _ dn])
    unfolding Let_def pend_def[symmetric] w_def[symmetric] rest_def[symmetric]
    using sc n(1) pt(1,3) D' fin stall by (simp add: l_def)
qed


lemma toy_decompress_ok: "decompress_ok toy toy_contract"
  unfolding decompress_ok_def
proof (intro conjI allI impI)
  fix e :: toy_state
  show "fst (createDStream toy e) \<noteq> 0" by (simp add: toy_def)
  fix a f :: "byte list"
  show "Decoded toy_contract (snd (createDStream toy e)) (fst (createDStream toy e)) a f 0 0"
    by (simp add: toy_def toy_contract_def toy_decoded_def)
next
  fix e e' :: toy_state and h i k ob ib and a f :: "byte list" and rep :: step_reply
  assume A: "Frame toy_contract a f \<and> Decoded toy_contract e h a f i k \<and> out_Pos ob = 0 \<and>
         0 < out_Size ob \<and> in_Pos ib \<le> in_Size ib \<and> in_Size ib \<le> length (in_Src ib) \<and>
         i + length (avail ib) \<le> length f \<and> avail ib = take (length (avail ib)) (drop i f) \<and>
         decompressStream toy h ob ib e = (rep, e')"
  then have f: "f = toy_encode a @ [0]" and D: "toy_decoded e a i k" and cap: "0 < out_Size ob"
    and ib: "in_Pos ib \<le> in_Size ib" "in_Size ib \<le> length (in_Src ib)"
    and il0: "i + length (avail ib) \<le> length f"
    and inp0: "avail ib = take (length (avail ib)) (drop i f)"
    unfolding toy_contract_def contract.select_convs by blast+
  have il: "i + length (avail ib) \<le> 2 * length a + 1" using il0 by (simp add: f)
  have inp: "avail ib = take (length (avail ib)) (drop i (toy_encode a @ [0]))"
    using inp0 unfolding f .
  from toy_decode_step[OF D cap il inp] obtain d n ex' dn where
    sc: "(if d_done e then ([], 0, False, True, False) else toy_scan (d_expect_data e) (avail ib)) =
           (d, n, ex', dn, False)"
    and n: "n = length (avail ib) \<or> n = 0 \<and> d_done e"
    and r: "let pend = d_pending e @ d; w = take (out_Size ob) pend; rest = drop (out_Size ob) pend;
                e' = e\<lparr>d_pending := rest, d_expect_data := ex', d_done := dn\<rparr>
            in k + length w \<le> length a \<and> w = take (length w) (drop k a) \<and>
               toy_decoded e' a (i + n) (k + length w) \<and>
               (dn \<and> rest = [] \<longrightarrow> i + n = 2 * length a + 1 \<and> k + length w = length a) \<and>
               (n = 0 \<and> w = [] \<and> (avail ib \<noteq> [] \<or> i = 2 * length a + 1) \<longrightarrow> dn \<and> rest = [])"
    by blast
  define pend where "pend = d_pending e @ d"
  define w where "w = take (out_Size ob) pend"
  define rest where "rest = drop (out_Size ob) pend"
  from r have r': "k + length w \<le> length a" "w = take (length w) (drop k a)"
    "toy_decoded (e\<lparr>d_pending := rest, d_expect_data := ex', d_done := dn\<rparr>) a (i + n) (k + length w)"
    "dn \<and> rest = [] \<longrightarrow> i + n = 2 * length a + 1 \<and> k + length w = length a"
    "n = 0 \<and> w = [] \<and> (avail ib \<noteq> [] \<or> i = 2 * length a + 1) \<longrightarrow> dn \<and> rest = []"
    unfolding Let_def pend_def[symmetric] w_def[symmetric] rest_def[symmetric] by blast+
  have "toy_decompressStream h ob ib e =
      (\<lparr>hint = (if dn \<and> rest = [] then 0 else 1), written = w, new_in_Pos = in_Pos ib + n\<rparr>,
       e\<lparr>d_pending := rest, d_expect_data := ex', d_done := dn\<rparr>)"
    unfolding toy_decompressStream_def Let_def avail_def[symmetric] sc
    by (simp add: pend_def w_def rest_def)
  moreover from A have "toy_decompressStream h ob ib e = (rep, e')" by (simp add: toy_def)
  ultimately have rep: "hint rep = (if dn \<and> rest = [] then 0 else 1)" "written rep = w"
    "new_in_Pos rep = in_Pos ib + n"
    and e': "e' = e\<lparr>d_pending := rest, d_expect_data := ex', d_done := dn\<rparr>"
    by auto
  have nn: "new_in_Pos rep - in_Pos ib = n" by (simp add: rep)
  show "isError toy (hint rep) = 0" by (simp add: toy_def rep toy_isError_def)
  show "in_Pos ib \<le> new_in_Pos rep" by (simp add: rep)
  show "new_in_Pos rep \<le> in_Size ib"
    using n length_avail[OF ib(2)] ib(1) by (auto simp: rep)
  show "length (written rep) \<le> out_Size ob" by (simp add: rep w_def)
  show "k + length (written rep) \<le> length a" using r'(1) by (simp add: rep)
  show "written rep = take (length (written rep)) (drop k a)" using r'(2) by (simp add: rep)
  show "Decoded toy_contract e' h a f (i + (new_in_Pos rep - in_Pos ib)) (k + length (written rep))"
    using r'(3) by (simp add: toy_contract_def nn rep(2) e')
  show "i + (new_in_Pos rep - in_Pos ib) = length f" if "hint rep = 0"
    using that r'(4) by (simp add: nn f rep(1) split: if_splits)
  show "k + length (written rep) = length a" if "hint rep = 0"
    using that r'(4) by (simp add: rep split: if_splits)
  show "dwork toy_contract e' h < dwork toy_contract e h"
    if "hint rep \<noteq> 0 \<and> new_in_Pos rep = in_Pos ib \<and> written rep = [] \<and>
        (avail ib \<noteq> [] \<or> i = length f)"
  proof -
    from that have "n = 0" "w = []" "avail ib \<noteq> [] \<or> i = 2 * length a + 1"
      and h: "\<not> (dn \<and> rest = [])"
      by (auto simp: rep f split: if_splits)
    with r'(5) show ?thesis by blast
  qed
qed

lemma toy_unpack_one: "toy_unpack (1 # ys) = take 8 ys @ toy_unpack (drop 8 ys)"
  by simp

lemma toy_unpack_zero: "toy_unpack (0 # ys) = replicate 8 0 @ toy_unpack ys"
  by simp

lemma toy_pack_cases:
  "xs \<noteq> [] \<Longrightarrow>
   toy_pack xs = (if take 8 xs = replicate 8 0 then 0 # toy_pack (drop 8 xs)
                  else 1 # take 8 xs @ toy_pack (drop 8 xs))"
  by (subst toy_pack.simps) simp

lemma toy_pack_Nil [simp]: "toy_pack [] = []"
  by (simp add: toy_pack.simps)

lemma take_drop_short:
  "take 8 (take 8 xs @ toy_pack (drop 8 xs)) = take 8 xs"
  "drop 8 (take 8 xs @ toy_pack (drop 8 xs)) = toy_pack (drop 8 xs)"
  by (cases "8 \<le> length xs"; simp)+

lemma toy_unpack_pack: "toy_unpack (toy_pack xs) = xs"
proof (induction xs rule: toy_pack.induct)
  case (1 xs)
  show ?case
  proof (cases "xs = []")
    case True
    then show ?thesis by simp
  next
    case ne: False
    show ?thesis
    proof (cases "take 8 xs = replicate 8 0")
      case True
      with ne 1(1) have ih: "toy_unpack (toy_pack (drop 8 xs)) = drop 8 xs" by simp
      have "toy_pack xs = 0 # toy_pack (drop 8 xs)"
        using True by (simp add: toy_pack_cases[OF ne])
      then have "toy_unpack (toy_pack xs) = replicate 8 0 @ drop 8 xs"
        by (simp only: toy_unpack_zero ih)
      also have "\<dots> = take 8 xs @ drop 8 xs" by (simp only: True)
      finally show ?thesis by simp
    next
      case False
      with ne 1(2) have ih: "toy_unpack (toy_pack (drop 8 xs)) = drop 8 xs" by simp
      have "toy_pack xs = 1 # take 8 xs @ toy_pack (drop 8 xs)"
        using False by (simp add: toy_pack_cases[OF ne])
      then have "toy_unpack (toy_pack xs) = take 8 xs @ drop 8 xs"
        by (simp only: toy_unpack_one take_drop_short ih)
      then show ?thesis by simp
    qed
  qed
qed

lemma length_toy_pack: "length (toy_pack xs) \<le> length xs + (length xs + 7) div 8"
proof (induction xs rule: toy_pack.induct)
  case (1 xs)
  show ?case
  proof (cases "xs = []")
    case True
    then show ?thesis by simp
  next
    case ne: False
    show ?thesis
    proof (cases "take 8 xs = replicate 8 0")
      case True
      then have "length (take 8 xs) = 8" by simp
      then have l8: "8 \<le> length xs" by simp
      from ne True 1(1) have "length (toy_pack (drop 8 xs)) \<le>
          length (drop 8 xs) + (length (drop 8 xs) + 7) div 8" by simp
      moreover have "toy_pack xs = 0 # toy_pack (drop 8 xs)"
        using True by (simp add: toy_pack_cases[OF ne])
      ultimately show ?thesis using l8 by simp
    next
      case False
      with ne 1(2) have ih: "length (toy_pack (drop 8 xs)) \<le>
          length (drop 8 xs) + (length (drop 8 xs) + 7) div 8" by simp
      have p: "toy_pack xs = 1 # take 8 xs @ toy_pack (drop 8 xs)"
        using False by (simp add: toy_pack_cases[OF ne])
      show ?thesis
      proof (cases "8 \<le> length xs")
        case True
        with ih show ?thesis by (simp add: p)
      next
        case short: False
        then have d: "drop 8 xs = []" by simp
        from ne have "8 \<le> length xs + 7" by (cases xs) simp_all
        then have "8 div 8 \<le> (length xs + 7) div 8" by (rule div_le_mono)
        then have "1 \<le> (length xs + 7) div 8" by simp
        with short show ?thesis by (simp add: p d)
      qed
    qed
  qed
qed

lemma toy_pack_Nil_iff: "toy_pack xs = [] \<longleftrightarrow> xs = []"
  by (subst toy_pack.simps) simp

lemma toy_oneshot_ok: "oneshot_ok toy"
  unfolding oneshot_ok_def
proof (intro allI impI)
  fix src :: "byte list" and level :: int
  assume "src \<noteq> [] \<and> length src < 2 ^ 62"
  then have ne: "src \<noteq> []" and l: "length src < 2 ^ 62" by simp_all
  let ?cb = "compressBound toy (length src)"
  have cb: "?cb = length src + length src div 8 + 1" by (simp add: toy_def)
  have c1: "0 < ?cb" by (simp add: cb)
  have c2: "?cb < 2 ^ 63" using l by (simp add: cb)
  have lp: "length (toy_pack src) \<le> ?cb"
    using length_toy_pack[of src] by (simp add: cb)
  have lp0: "0 < length (toy_pack src)" using ne by (simp add: toy_pack_Nil_iff)
  have lps: "length (toy_pack src) < 2 ^ 63" using lp l by (simp add: cb)
  have main: "isError toy n = 0 \<and> 0 < n \<and> n \<le> ?cb \<and> length ws = n \<and>
           (\<forall>cap m ws'. 0 < cap \<and> decompress toy cap ws = (m, ws') \<longrightarrow>
              (if length src \<le> cap then isError toy m = 0 \<and> m = length src \<and> ws' = src
               else isError toy m \<noteq> 0))"
    if c: "compress toy ?cb src level = (n, ws)" for n ws
  proof -
    from c lp have nw: "n = length (toy_pack src)" "ws = toy_pack src"
      by (auto simp: toy_def toy_compress_def Let_def)
    have e: "isError toy n = 0" using lps by (simp add: toy_def nw toy_isError_def)
    have d: "if length src \<le> cap then isError toy m = 0 \<and> m = length src \<and> ws' = src
        else isError toy m \<noteq> 0"
      if "0 < cap \<and> decompress toy cap ws = (m, ws')" for cap m ws'
    proof -
      from that have "toy_decompress cap (toy_pack src) = (m, ws')" by (simp add: toy_def nw)
      then show ?thesis
        using l
        by (auto simp: toy_decompress_def toy_unpack_pack toy_def toy_isError_def
            toy_dstSize_tooSmall_def Let_def split: if_splits)
    qed
    from e lp0 lp d show ?thesis by (simp add: nw)
  qed
  from c1 c2 main
  show "0 < ?cb \<and> ?cb < 2 ^ 63 \<and>
        (\<forall>n ws. compress toy ?cb src level = (n, ws) \<longrightarrow>
           isError toy n = 0 \<and> 0 < n \<and> n \<le> ?cb \<and> length ws = n \<and>
           (\<forall>cap m ws'. 0 < cap \<and> decompress toy cap ws = (m, ws') \<longrightarrow>
              (if length src \<le> cap then isError toy m = 0 \<and> m = length src \<and> ws' = src
               else isError toy m \<noteq> 0)))"
    by blast
qed

section \<open>The one-shot functions with an engine that is a codec\<close>

lemma uint64_of_int_small: "0 \<le> i \<Longrightarrow> i < 2 ^ 64 \<Longrightarrow> uint64_of_int i = nat i"
  by (simp add: uint64_of_int_def)

lemma wrap_int64_small: "0 \<le> i \<Longrightarrow> i < 2 ^ 63 \<Longrightarrow> wrap_int64 i = i"
  by (simp add: wrap_int64_def)

lemma oneshot_okD:
  assumes "oneshot_ok z" and "src \<noteq> []" and "length src < 2 ^ 62"
    and "compress z (compressBound z (length src)) src level = (n, ws)"
  shows "0 < compressBound z (length src)" and "compressBound z (length src) < 2 ^ 63"
    and "isError z n = 0" and "0 < n" and "n \<le> compressBound z (length src)" and "length ws = n"
    and "0 < cap \<Longrightarrow> decompress z cap ws = (m, ws') \<Longrightarrow>
           (if length src \<le> cap then isError z m = 0 \<and> m = length src \<and> ws' = src
            else isError z m \<noteq> 0)"
proof -
  from assms(1)[unfolded oneshot_ok_def, rule_format, of src level] assms(2,3)
  have a: "0 < compressBound z (length src) \<and> compressBound z (length src) < 2 ^ 63 \<and>
        (\<forall>n ws. compress z (compressBound z (length src)) src level = (n, ws) \<longrightarrow>
           isError z n = 0 \<and> 0 < n \<and> n \<le> compressBound z (length src) \<and> length ws = n \<and>
           (\<forall>cap m ws'. 0 < cap \<and> decompress z cap ws = (m, ws') \<longrightarrow>
              (if length src \<le> cap then isError z m = 0 \<and> m = length src \<and> ws' = src
               else isError z m \<noteq> 0)))"
    by blast
  then show "0 < compressBound z (length src)" and "compressBound z (length src) < 2 ^ 63"
    by blast+
  from a assms(4) have b: "isError z n = 0 \<and> 0 < n \<and> n \<le> compressBound z (length src) \<and>
      length ws = n \<and>
           (\<forall>cap m ws'. 0 < cap \<and> decompress z cap ws = (m, ws') \<longrightarrow>
              (if length src \<le> cap then isError z m = 0 \<and> m = length src \<and> ws' = src
               else isError z m \<noteq> 0))"
    by blast
  then show "isError z n = 0" and "0 < n" and "n \<le> compressBound z (length src)"
    and "length ws = n" by blast+
  from b show "0 < cap \<Longrightarrow> decompress z cap ws = (m, ws') \<Longrightarrow>
           (if length src \<le> cap then isError z m = 0 \<and> m = length src \<and> ws' = src
            else isError z m \<noteq> 0)" by blast
qed

lemma Compress_ok:
  assumes ok: "oneshot_ok z" and b: "b \<noteq> []" "length b < 2 ^ 62"
  shows "\<exists>st1 n. Compress z st b level =
           (st1, Ret (Some (snd (compress z (compressBound z (length b)) b level)), None)) \<and>
         compress z (compressBound z (length b)) b level =
           (n, snd (compress z (compressBound z (length b)) b level)) \<and>
         snd (compress z (compressBound z (length b)) b level) \<noteq> []"
proof -
  let ?cb = "compressBound z (length b)"
  obtain n ws where c: "compress z ?cb b level = (n, ws)" by (cases "compress z ?cb b level")
  note d = oneshot_okD[OF ok b c]
  have u: "uint64_of_int (int (length b)) = length b"
    using b(2) by (simp add: uint64_of_int_small)
  have cap: "int_of_uint64 ?cb = int ?cb" using d(2) by (rule int_of_uint64_small)
  have u2: "uint64_of_int (int ?cb) = ?cb" using d(2) by (simp add: uint64_of_int_small)
  have gs: "go_slice (overlay ws (replicate ?cb 0)) 0 (int n) = Some ws"
    using d(5,6) go_slice_overlay[of ws "replicate ?cb (0 :: byte)"] by simp
  have "\<exists>st1. Compress z st b level = (st1, Ret (Some ws, None))"
    using b(1) d(1,3) c gs by (simp add: Compress_def CompressBound_def u cap u2 Let_def)
  moreover have "ws \<noteq> []" using d(4,6) by auto
  ultimately show ?thesis using c by auto
qed

lemma Decompress_ok:
  assumes ok: "oneshot_ok z" and b: "b \<noteq> []" "length b < 2 ^ 62"
    and c: "compress z (compressBound z (length b)) b level = (n, ws)"
    and m: "maxSize < 2 ^ 63" "int (length ws) * 5 < 2 ^ 63"
  shows "if int (length b) \<le> capacity ws maxSize
         then snd (Decompress z st ws maxSize) = Ret (Some b, None)
         else \<exists>msg. snd (Decompress z st ws maxSize) = Ret (None, Some (Errorf msg))"
proof -
  note d = oneshot_okD[OF ok b c]
  define cap where "cap = capacity ws maxSize"
  have cp: "0 < cap" "cap < 2 ^ 63" using m by (auto simp: cap_def capacity_def)
  have ms: "(if maxSize \<le> 0
               then (let m = wrap_int64 (int (length ws) * 5) in if m < 1024 then 1024 else m)
               else maxSize) = cap"
    using m(2) by (auto simp: cap_def capacity_def wrap_int64_small Let_def)
  have u: "uint64_of_int cap = nat cap" using cp by (simp add: uint64_of_int_small)
  obtain r ws' where dc: "decompress z (nat cap) ws = (r, ws')"
    by (cases "decompress z (nat cap) ws")
  have wn: "length ws \<noteq> 0" using d(4,6) by simp
  from d(7)[OF _ dc] cp have dd:
    "if length b \<le> nat cap then isError z r = 0 \<and> r = length b \<and> ws' = b else isError z r \<noteq> 0"
    by simp
  have le: "(int (length b) \<le> cap) = (length b \<le> nat cap)" using cp by auto
  show ?thesis
  proof (cases "length b \<le> nat cap")
    case True
    with dd have r: "isError z r = 0" "r = length b" "ws' = b" by auto
    have gs: "go_slice (overlay b (replicate (nat cap) 0)) 0 (int (length b)) = Some b"
      using True go_slice_overlay[of b "replicate (nat cap) (0 :: byte)"] by simp
    have "snd (Decompress z st ws maxSize) = Ret (Some b, None)"
      using wn dc r gs unfolding Decompress_def ms by (simp add: u Let_def)
    with True le show ?thesis by (simp add: cap_def)
  next
    case False
    with dd have r: "isError z r \<noteq> 0" by simp
    have "snd (Decompress z st ws maxSize) =
       Ret (None, Some (Errorf (''zstd decompression error: '' @ getErrorName z r)))"
      using wn dc r unfolding Decompress_def ms by (simp add: u Let_def)
    with False le show ?thesis by (simp add: cap_def)
  qed
qed

section \<open>From the Writer to the Reader\<close>

lemma NewWriter_fresh: "NewWriter z st [] level = (st1, w) \<Longrightarrow> fresh_Writer w"
  by (auto simp: NewWriter_def fresh_Writer_def defaultWriteBufferSize_def split: prod.splits)

lemma NewReader_fresh: "NewReader z st s = (st1, r) \<Longrightarrow> fresh_Reader r"
  by (auto simp: NewReader_def fresh_Reader_def defaultReadBufferSize_def split: prod.splits)

lemma fresh_holds: "fresh_Writer w \<Longrightarrow> holds ct (w, st) [] []"
  by (simp add: fresh_Writer_def holds_def)

lemma fresh_tracks:
  "fresh_Reader r \<Longrightarrow> Frame ct a f \<Longrightarrow> tracks ct a f (r\<lparr>r_reader := f\<rparr>, st) 0 0 0 0"
  by (simp add: fresh_Reader_def tracks_def empty_in_def avail_def)

lemma stream_round_trip:
  fixes z :: "'e Zstd" and w :: "byte list Writer" and r :: "byte list Reader"
  assumes c: "compress_ok z ct" and d: "decompress_ok z ct"
    and w: "fresh_Writer w" and r: "fresh_Reader r" and room: "\<And>l. 0 < room l"
    and ne: "p1 @ p2 \<noteq> []"
  shows "\<exists>s1 s2 s3 s4 s5.
           Write z Buffer_Write w st p1 = Some (s1, Ret (int (length p1), None)) \<and>
           Flush z Buffer_Write (fst s1) (snd s1) = Some (s2, Ret None) \<and>
           w_stream (fst s2) = w_stream (fst s1) \<and>
           Write z Buffer_Write (fst s2) (snd s2) p2 = Some (s3, Ret (int (length p2), None)) \<and>
           Writer_Close z Buffer_Write (fst s3) (snd s3) = Some (s4, Ret None) \<and>
           Frame ct (p1 @ p2) (w_writer (fst s4)) \<and>
           ReadAll z Buffer_Read room (r\<lparr>r_reader := w_writer (fst s4)\<rparr>, st') [] =
             Some (s5, Ret (p1 @ p2, None)) \<and>
           r_reader (fst s5) = []"
proof -
  from Write_holds[OF c fresh_holds[OF w], of st p1] obtain w1 st1 where
    s1: "Write z Buffer_Write w st p1 = Some ((w1, st1), Ret (int (length p1), None))"
    and h1: "holds ct (w1, st1) [] p1" "p1 \<noteq> [] \<longrightarrow> w_stream w1 \<noteq> 0" by auto
  from Flush_holds[OF c h1(1)] obtain w2 st2 where
    s2: "Flush z Buffer_Write w1 st1 = Some ((w2, st2), Ret None)"
    and h2: "holds ct (w2, st2) [] p1" "w_stream w2 = w_stream w1" by blast
  from Write_holds[OF c h2(1), of p2] obtain w3 st3 where
    s3: "Write z Buffer_Write w2 st2 p2 = Some ((w3, st3), Ret (int (length p2), None))"
    and h3: "holds ct (w3, st3) [] (p1 @ p2)" "p2 \<noteq> [] \<longrightarrow> w_stream w3 \<noteq> 0"
      "w_stream w2 \<noteq> 0 \<longrightarrow> w_stream w3 = w_stream w2" by blast
  have op: "w_stream w3 \<noteq> 0" using ne h1(2) h2(2) h3(2,3) by (cases "p2 = []") auto
  from Close_holds[OF c h3(1) op] obtain w4 st4 f where
    s4: "Writer_Close z Buffer_Write w3 st3 = Some ((w4, st4), Ret None)"
    and f: "Frame ct (p1 @ p2) f" "w_writer w4 = [] @ f" by blast
  from ReadAll_total[where room = room, OF d room fresh_tracks[OF r f(1), of st']]
  obtain r5 st5 where
    s5: "ReadAll z Buffer_Read room (r\<lparr>r_reader := f\<rparr>, st') (take 0 (p1 @ p2)) =
           Some ((r5, st5), Ret (p1 @ p2, None))" "r_reader r5 = []" by blast
  show ?thesis
    apply (rule exI[of _ "(w1, st1)"], rule exI[of _ "(w2, st2)"], rule exI[of _ "(w3, st3)"])
    apply (rule exI[of _ "(w4, st4)"], rule exI[of _ "(r5, st5)"])
    using s1 s2 h2(2) s3 s4 f s5 by simp
qed

lemma stream_round_trip_plain:
  fixes z :: "'e Zstd" and w :: "byte list Writer" and r :: "byte list Reader"
  assumes c: "compress_ok z ct" and d: "decompress_ok z ct"
    and w: "fresh_Writer w" and r: "fresh_Reader r" and room: "\<And>l. 0 < room l"
    and ne: "b \<noteq> []"
  shows "\<exists>s1 s2 s3.
           Write z Buffer_Write w st b = Some (s1, Ret (int (length b), None)) \<and>
           Writer_Close z Buffer_Write (fst s1) (snd s1) = Some (s2, Ret None) \<and>
           ReadAll z Buffer_Read room (r\<lparr>r_reader := w_writer (fst s2)\<rparr>, st') [] =
             Some (s3, Ret (b, None)) \<and>
           r_reader (fst s3) = []"
proof -
  from Write_holds[OF c fresh_holds[OF w], of st b] ne obtain w1 st1 where
    s1: "Write z Buffer_Write w st b = Some ((w1, st1), Ret (int (length b), None))"
    and h1: "holds ct (w1, st1) [] b" "w_stream w1 \<noteq> 0" by auto
  from Close_holds[OF c h1] obtain w2 st2 f where
    s2: "Writer_Close z Buffer_Write w1 st1 = Some ((w2, st2), Ret None)"
    and f: "Frame ct b f" "w_writer w2 = [] @ f" by blast
  from ReadAll_total[where room = room, OF d room fresh_tracks[OF r f(1), of st']]
  obtain r3 st3 where
    s3: "ReadAll z Buffer_Read room (r\<lparr>r_reader := f\<rparr>, st') (take 0 b) =
           Some ((r3, st3), Ret (b, None))" "r_reader r3 = []" by blast
  show ?thesis
    apply (rule exI[of _ "(w1, st1)"], rule exI[of _ "(w2, st2)"], rule exI[of _ "(r3, st3)"])
    using s1 s2 f s3 by simp
qed

lemma Close_unopened:
  "w_stream w = 0 \<Longrightarrow>
   \<exists>s. Writer_Close z snk w st = Some (s, Ret None) \<and> w_writer (fst s) = w_writer w"
  by (auto simp: Writer_Close_def release_ctx_def)

text \<open>
  On a buffer that holds nothing, the decompression stream of the small engine asks for
  more at every step, the source has no more to give, and the loop of \<^verbatim>\<open>Read\<close> has no
  other way out.
\<close>

lemma Read_body_empty_toy:
  fixes r :: "byte list Reader"
  assumes "r_end r = 0" "\<not> r_streamEnded r" "r_reader r = []" "r_buffer r \<noteq> []"
    "r_readBuffer r \<noteq> []" "r_inBuffer r = empty_in"
    "d_pending (estate st) = []" "\<not> d_done (estate st)" "\<not> d_expect_data (estate st)"
  shows "\<exists>r' st'. Read_body toy Buffer_Read (r, st) = Next (r', st') \<and>
           r_end r' = 0 \<and> \<not> r_streamEnded r' \<and> r_reader r' = [] \<and> r_buffer r' \<noteq> [] \<and>
           r_readBuffer r' \<noteq> [] \<and> r_inBuffer r' = empty_in \<and>
           d_pending (estate st') = [] \<and> \<not> d_done (estate st') \<and> \<not> d_expect_data (estate st')"
  using assms
  by (auto simp: Read_body_def ensure_stream_def refill_def Buffer_Read_def Read_decode_def
      decompress_step_def toy_def toy_decompressStream_def Let_def log_def empty_in_def
      int_of_uint64_def toy_isError_def)

lemma Read_empty_toy: "Read toy Buffer_Read (small_Reader []) world0 [0, 0] = None"
proof -
  let ?I = "\<lambda>(r :: byte list Reader, st :: toy_state world).
     r_end r = 0 \<and> \<not> r_streamEnded r \<and> r_reader r = [] \<and> r_buffer r \<noteq> [] \<and>
     r_readBuffer r \<noteq> [] \<and> r_inBuffer r = empty_in \<and>
     d_pending (estate st) = [] \<and> \<not> d_done (estate st) \<and> \<not> d_expect_data (estate st)"
  have "iterate (Read_body toy Buffer_Read) ((small_Reader [])\<lparr>r_pos := 0, r_end := 0\<rparr>, world0) = None"
  proof (rule iterate_None[where I = ?I])
    show "?I ((small_Reader [])\<lparr>r_pos := 0, r_end := 0\<rparr>, world0)"
      by (simp add: small_Reader_def world0_def toy_init_def)
  next
    fix s :: "byte list Reader \<times> toy_state world"
    assume "?I s"
    then show "\<exists>s'. Read_body toy Buffer_Read s = Next s' \<and> ?I s'"
      using Read_body_empty_toy[of "fst s" "snd s"] by (cases s) auto
  qed
  then show ?thesis by (simp add: Read_def small_Reader_def)
qed

lemma sc_Close_plain:
  "Writer_Close toy Buffer_Write (fst sc_written) (snd sc_written) = Some (sc_closed_plain, Ret None)"
  by code_simp

lemma sc_frame_plain: "w_writer (fst sc_closed_plain) = [1, 1, 1, 2, 1, 3, 0]"
  by code_simp

lemma sc_Compress: "snd (Compress toy world0 [1, 2, 3] 3) = Ret (Some [1, 1, 2, 3], None)"
  by code_simp

lemma sc_capacity: "capacity [1, 1, 2, 3] 0 = 1024"
  by (simp add: capacity_def)

section \<open>The round trip\<close>

text \<open>
  C1, as the code has it. Let the engine be a codec (\<open>oneshot_ok\<close>, \<open>compress_ok\<close>,
  \<open>decompress_ok\<close>), and let the level be any. One-shot: \<^verbatim>\<open>Compress\<close> and \<^verbatim>\<open>Decompress\<close>
  of the empty sequence give the empty sequence; for a non-empty \<open>b\<close>, \<^verbatim>\<open>Compress\<close> returns
  bytes \<open>c\<close>, and \<^verbatim>\<open>Decompress\<close> of \<open>c\<close> returns exactly \<open>b\<close> when the capacity it allots
  (\<^verbatim>\<open>maxSize\<close> if positive, else five times the length of \<open>c\<close> and at least 1024) is at
  least the length of \<open>b\<close>, and returns an error when it is less. Streaming: for a non-empty
  \<open>b\<close>, a new Writer on an empty buffer that is written \<open>b\<close> and closed returns success both
  times, and a new Reader on what the buffer then holds, drained by \<^verbatim>\<open>io.ReadAll\<close> with
  whatever room at every read, returns exactly \<open>b\<close> with no error, the buffer being used up.
  For the empty sequence the Writer writes nothing into the buffer, not even an empty
  frame, so that there is nothing a Reader could decode.
\<close>

theorem C1_round_trip:
  fixes z :: "'e Zstd" and w :: "byte list Writer" and r :: "byte list Reader"
  assumes "oneshot_ok z" and "compress_ok z ct" and "decompress_ok z ct"
  shows
    "(Compress z st [] level = (st, Ret (Some [], None)) \<and>
      Decompress z st [] maxSize = (st, Ret (Some [], None))) \<and>
     (b \<noteq> [] \<and> length b < 2 ^ 62 \<longrightarrow>
        (\<exists>st1 c. Compress z st b level = (st1, Ret (Some c, None)) \<and>
           (maxSize < 2 ^ 63 \<and> int (length c) * 5 < 2 ^ 63 \<longrightarrow>
              (if int (length b) \<le> capacity c maxSize
               then snd (Decompress z st2 c maxSize) = Ret (Some b, None)
               else \<exists>msg. snd (Decompress z st2 c maxSize) = Ret (None, Some (Errorf msg)))))) \<and>
     (b \<noteq> [] \<and> fresh_Writer w \<and> fresh_Reader r \<and> (\<forall>l. 0 < room l) \<longrightarrow>
        (\<exists>s1 s2 s3.
           Write z Buffer_Write w st b = Some (s1, Ret (int (length b), None)) \<and>
           Writer_Close z Buffer_Write (fst s1) (snd s1) = Some (s2, Ret None) \<and>
           ReadAll z Buffer_Read room (r\<lparr>r_reader := w_writer (fst s2)\<rparr>, st3) [] =
             Some (s3, Ret (b, None)) \<and>
           r_reader (fst s3) = [])) \<and>
     (fresh_Writer w \<longrightarrow>
        Write z Buffer_Write w st [] = Some ((w, st), Ret (0, None)) \<and>
        (\<exists>s. Writer_Close z Buffer_Write w st = Some (s, Ret None) \<and> w_writer (fst s) = []))"
proof (intro conjI impI)
  show "Compress z st [] level = (st, Ret (Some [], None))" by (simp add: Compress_def)
  show "Decompress z st [] maxSize = (st, Ret (Some [], None))" by (simp add: Decompress_def)
next
  assume b: "b \<noteq> [] \<and> length b < 2 ^ 62"
  from Compress_ok[OF assms(1), of b st level] b obtain st1 n where
    c: "Compress z st b level =
           (st1, Ret (Some (snd (compress z (compressBound z (length b)) b level)), None))"
      "compress z (compressBound z (length b)) b level =
           (n, snd (compress z (compressBound z (length b)) b level))"
    by blast
  let ?c = "snd (compress z (compressBound z (length b)) b level)"
  have "maxSize < 2 ^ 63 \<and> int (length ?c) * 5 < 2 ^ 63 \<longrightarrow>
              (if int (length b) \<le> capacity ?c maxSize
               then snd (Decompress z st2 ?c maxSize) = Ret (Some b, None)
               else \<exists>msg. snd (Decompress z st2 ?c maxSize) = Ret (None, Some (Errorf msg)))"
    using Decompress_ok[OF assms(1) _ _ c(2), of maxSize st2] b by blast
  with c(1) show "\<exists>st1 c. Compress z st b level = (st1, Ret (Some c, None)) \<and>
           (maxSize < 2 ^ 63 \<and> int (length c) * 5 < 2 ^ 63 \<longrightarrow>
              (if int (length b) \<le> capacity c maxSize
               then snd (Decompress z st2 c maxSize) = Ret (Some b, None)
               else \<exists>msg. snd (Decompress z st2 c maxSize) = Ret (None, Some (Errorf msg))))"
    by blast
next
  assume a: "b \<noteq> [] \<and> fresh_Writer w \<and> fresh_Reader r \<and> (\<forall>l. 0 < room l)"
  then have room: "\<And>l. 0 < room l" by simp
  from a show "\<exists>s1 s2 s3.
           Write z Buffer_Write w st b = Some (s1, Ret (int (length b), None)) \<and>
           Writer_Close z Buffer_Write (fst s1) (snd s1) = Some (s2, Ret None) \<and>
           ReadAll z Buffer_Read room (r\<lparr>r_reader := w_writer (fst s2)\<rparr>, st3) [] =
             Some (s3, Ret (b, None)) \<and>
           r_reader (fst s3) = []"
    using stream_round_trip_plain[where room = room, OF assms(2,3) _ _ room] by blast
next
  assume "fresh_Writer w"
  then have w: "w_stream w = 0" "w_writer w = []" by (simp_all add: fresh_Writer_def)
  show "Write z Buffer_Write w st [] = Some ((w, st), Ret (0, None))" by (simp add: Write_def)
  from Close_unopened[OF w(1), of z Buffer_Write st] w(2)
  show "\<exists>s. Writer_Close z Buffer_Write w st = Some (s, Ret None) \<and> w_writer (fst s) = []"
    by simp
qed

text \<open>
  The theorem on the small engine: the one-shot pair and the streaming pair on the bytes 1,
  2, 3, the caller offering room for two bytes at every read.
\<close>

theorem C1_witness:
  "oneshot_ok toy \<and> compress_ok toy toy_contract \<and> decompress_ok toy toy_contract \<and>
   fresh_Writer (small_Writer []) \<and> fresh_Reader (small_Reader []) \<and>
   snd (Compress toy world0 [1, 2, 3] 3) = Ret (Some [1, 1, 2, 3], None) \<and>
   snd (Decompress toy world0 [1, 1, 2, 3] 0) = Ret (Some [1, 2, 3], None) \<and>
   Write toy Buffer_Write (small_Writer []) world0 [1, 2, 3] = Some (sc_written, Ret (3, None)) \<and>
   Writer_Close toy Buffer_Write (fst sc_written) (snd sc_written) =
     Some (sc_closed_plain, Ret None) \<and>
   w_writer (fst sc_closed_plain) = [1, 1, 1, 2, 1, 3, 0] \<and>
   map_option snd (ReadAll toy Buffer_Read sc_room
       ((small_Reader [])\<lparr>r_reader := w_writer (fst sc_closed_plain)\<rparr>, world0) []) =
     Some (Ret ([1, 2, 3], None))"
proof -
  have fw: "fresh_Writer (small_Writer [])" by (simp add: fresh_Writer_def small_Writer_def)
  have fr: "fresh_Reader (small_Reader [])"
    by (simp add: fresh_Reader_def small_Reader_def empty_in_def)
  have room: "\<forall>l. 0 < sc_room l" by (simp add: sc_room_def)
  note t = C1_round_trip[OF toy_oneshot_ok toy_compress_ok toy_decompress_ok,
      where b = "[1, 2, 3]" and st = world0 and level = 3 and maxSize = 0 and ?st2.0 = world0 and
        w = "small_Writer []" and r = "small_Reader []" and room = sc_room and ?st3.0 = world0]
  from t[THEN conjunct2, THEN conjunct1] obtain st1 c where
    c: "Compress toy world0 [1, 2, 3] 3 = (st1, Ret (Some c, None))"
    and d: "(0 :: int) < 2 ^ 63 \<and> int (length c) * 5 < 2 ^ 63 \<longrightarrow>
              (if int (length [1 :: byte, 2, 3]) \<le> capacity c 0
               then snd (Decompress toy world0 c 0) = Ret (Some [1, 2, 3], None)
               else \<exists>msg. snd (Decompress toy world0 c 0) = Ret (None, Some (Errorf msg)))"
    by auto
  from c sc_Compress have ce: "c = [1, 1, 2, 3]" by simp
  from d have dec: "snd (Decompress toy world0 [1, 1, 2, 3] 0) = Ret (Some [1, 2, 3], None)"
    unfolding ce by (simp add: sc_capacity)
  from t[THEN conjunct2, THEN conjunct2, THEN conjunct1] fw fr room obtain s1 s2 s3 where
    s: "Write toy Buffer_Write (small_Writer []) world0 [1, 2, 3] =
          Some (s1, Ret (int (length [1 :: byte, 2, 3]), None))"
      "Writer_Close toy Buffer_Write (fst s1) (snd s1) = Some (s2, Ret None)"
      "ReadAll toy Buffer_Read sc_room ((small_Reader [])\<lparr>r_reader := w_writer (fst s2)\<rparr>, world0) [] =
         Some (s3, Ret ([1, 2, 3], None))"
    by auto
  from s(1) sc_Write have s1: "s1 = sc_written" by simp
  from s(2) sc_Close_plain have s2: "s2 = sc_closed_plain" by (simp add: s1)
  from s(3) have ra: "map_option snd (ReadAll toy Buffer_Read sc_room
       ((small_Reader [])\<lparr>r_reader := w_writer (fst sc_closed_plain)\<rparr>, world0) []) =
     Some (Ret ([1, 2, 3], None))" by (simp add: s2)
  show ?thesis
    using toy_oneshot_ok toy_compress_ok toy_decompress_ok fw fr sc_Compress dec sc_Write
      sc_Close_plain sc_frame_plain ra
    by simp
qed

text \<open>
  C1 as stated fails. One-shot: 1032 zero bytes compress into 129 bytes, for which
  \<^verbatim>\<open>Decompress\<close> with \<^verbatim>\<open>maxSize\<close> 0 allots the capacity 1024, and it returns the error of
  the engine instead of the 1032 bytes. Streaming: a Writer that is written the empty
  sequence and closed leaves the buffer empty, and \<^verbatim>\<open>Read\<close> on the empty buffer never
  returns.
\<close>

theorem C1_counterexample:
  "snd (Compress toy world0 (replicate 1032 0) 3) = Ret (Some (replicate 129 0), None) \<and>
   snd (Decompress toy world0 (replicate 129 0) 0) =
     Ret (None, Some (Errorf ''zstd decompression error: Destination buffer is too small'')) \<and>
   Write toy Buffer_Write (small_Writer []) world0 [] = Some ((small_Writer [], world0), Ret (0, None)) \<and>
   w_writer (fst (fst (the (Writer_Close toy Buffer_Write (small_Writer []) world0)))) = [] \<and>
   Read toy Buffer_Read (small_Reader []) world0 [0, 0] = None"
proof -
  have a: "snd (Compress toy world0 (replicate 1032 0) 3) = Ret (Some (replicate 129 0), None)"
    by code_simp
  have b: "snd (Decompress toy world0 (replicate 129 0) 0) =
     Ret (None, Some (Errorf ''zstd decompression error: Destination buffer is too small''))"
    by code_simp
  have c: "Write toy Buffer_Write (small_Writer []) world0 [] =
             Some ((small_Writer [], world0), Ret (0, None))"
    by (simp add: Write_def)
  have d: "w_writer (fst (fst (the (Writer_Close toy Buffer_Write (small_Writer []) world0)))) = []"
    by code_simp
  from a b c d Read_empty_toy show ?thesis by simp
qed

section \<open>Flush does not end the frame\<close>

text \<open>
  C8. Let the engine be a codec for streams. On a new Writer on an empty buffer, after a
  write of \<open>p1\<close> (which may be empty: the flush then has no stream to work on), \<^verbatim>\<open>Flush\<close>
  returns success and leaves the stream as it is; a following write of \<open>p2\<close> and
  \<^verbatim>\<open>Close\<close> return success; if anything was written at all, the buffer then holds exactly
  one frame whose content is \<open>p1\<close> followed by \<open>p2\<close>, and a new Reader on it, drained by
  \<^verbatim>\<open>io.ReadAll\<close>, returns \<open>p1\<close> followed by \<open>p2\<close> with no error, the buffer being used up.
\<close>

theorem C8_flush_keeps_frame:
  fixes z :: "'e Zstd" and w :: "byte list Writer" and r :: "byte list Reader"
  assumes "compress_ok z ct" and "decompress_ok z ct"
  shows
    "fresh_Writer w \<and> p1 @ p2 \<noteq> [] \<and> fresh_Reader r \<and> (\<forall>l. 0 < room l) \<longrightarrow>
       (\<exists>s1 s2 s3 s4 s5.
           Write z Buffer_Write w st p1 = Some (s1, Ret (int (length p1), None)) \<and>
           Flush z Buffer_Write (fst s1) (snd s1) = Some (s2, Ret None) \<and>
           w_stream (fst s2) = w_stream (fst s1) \<and>
           Write z Buffer_Write (fst s2) (snd s2) p2 = Some (s3, Ret (int (length p2), None)) \<and>
           Writer_Close z Buffer_Write (fst s3) (snd s3) = Some (s4, Ret None) \<and>
           Frame ct (p1 @ p2) (w_writer (fst s4)) \<and>
           ReadAll z Buffer_Read room (r\<lparr>r_reader := w_writer (fst s4)\<rparr>, st') [] =
             Some (s5, Ret (p1 @ p2, None)) \<and>
           r_reader (fst s5) = [])"
proof
  assume a: "fresh_Writer w \<and> p1 @ p2 \<noteq> [] \<and> fresh_Reader r \<and> (\<forall>l. 0 < room l)"
  then have room: "\<And>l. 0 < room l" by simp
  from a show "\<exists>s1 s2 s3 s4 s5.
           Write z Buffer_Write w st p1 = Some (s1, Ret (int (length p1), None)) \<and>
           Flush z Buffer_Write (fst s1) (snd s1) = Some (s2, Ret None) \<and>
           w_stream (fst s2) = w_stream (fst s1) \<and>
           Write z Buffer_Write (fst s2) (snd s2) p2 = Some (s3, Ret (int (length p2), None)) \<and>
           Writer_Close z Buffer_Write (fst s3) (snd s3) = Some (s4, Ret None) \<and>
           Frame ct (p1 @ p2) (w_writer (fst s4)) \<and>
           ReadAll z Buffer_Read room (r\<lparr>r_reader := w_writer (fst s4)\<rparr>, st') [] =
             Some (s5, Ret (p1 @ p2, None)) \<and>
           r_reader (fst s5) = []"
    using stream_round_trip[where room = room, OF assms _ _ room] by blast
qed

text \<open>
  The theorem on the session of the example program: 1, 2, 3 written, a flush, 4, 5 written,
  and the Writer closed.
\<close>

theorem C8_witness:
  "compress_ok toy toy_contract \<and> decompress_ok toy toy_contract \<and>
   fresh_Writer (small_Writer []) \<and> fresh_Reader (small_Reader []) \<and>
   Write toy Buffer_Write (small_Writer []) world0 [1, 2, 3] = Some (sc_written, Ret (3, None)) \<and>
   Flush toy Buffer_Write (fst sc_written) (snd sc_written) = Some (sc_flushed, Ret None) \<and>
   w_stream (fst sc_flushed) = w_stream (fst sc_written) \<and>
   Write toy Buffer_Write (fst sc_flushed) (snd sc_flushed) [4, 5] = Some (sc_more, Ret (2, None)) \<and>
   Writer_Close toy Buffer_Write (fst sc_more) (snd sc_more) = Some (sc_closed, Ret None) \<and>
   sc_frame = [1, 1, 1, 2, 1, 3, 1, 4, 1, 5, 0] \<and>
   Frame toy_contract [1, 2, 3, 4, 5] sc_frame \<and>
   map_option snd (ReadAll toy Buffer_Read sc_room
       ((small_Reader [])\<lparr>r_reader := sc_frame\<rparr>, world0) []) =
     Some (Ret ([1, 2, 3, 4, 5], None))"
proof -
  have h: "fresh_Writer (small_Writer []) \<and> [1, 2, 3] @ [4, 5] \<noteq> ([] :: byte list) \<and>
           fresh_Reader (small_Reader []) \<and> (\<forall>l. 0 < sc_room l)"
    by (simp add: fresh_Writer_def small_Writer_def fresh_Reader_def small_Reader_def
        empty_in_def sc_room_def)
  from C8_flush_keeps_frame[OF toy_compress_ok toy_decompress_ok,
      where w = "small_Writer []" and ?p1.0 = "[1, 2, 3]" and ?p2.0 = "[4, 5]" and
        r = "small_Reader []" and room = sc_room and st = world0 and st' = world0, THEN mp, OF h]
  obtain s1 s2 s3 s4 s5 where
    s: "Write toy Buffer_Write (small_Writer []) world0 [1, 2, 3] =
          Some (s1, Ret (int (length [1 :: byte, 2, 3]), None))"
      "Flush toy Buffer_Write (fst s1) (snd s1) = Some (s2, Ret None)"
      "w_stream (fst s2) = w_stream (fst s1)"
      "Write toy Buffer_Write (fst s2) (snd s2) [4, 5] =
          Some (s3, Ret (int (length [4 :: byte, 5]), None))"
      "Writer_Close toy Buffer_Write (fst s3) (snd s3) = Some (s4, Ret None)"
      "Frame toy_contract ([1, 2, 3] @ [4, 5]) (w_writer (fst s4))"
      "ReadAll toy Buffer_Read sc_room ((small_Reader [])\<lparr>r_reader := w_writer (fst s4)\<rparr>, world0) [] =
         Some (s5, Ret ([1, 2, 3] @ [4, 5], None))"
    by blast
  from s(1) sc_Write have s1: "s1 = sc_written" by simp
  from s(2) sc_Flush have s2: "s2 = sc_flushed" by (simp add: s1)
  from s(4) sc_Write2 have s3: "s3 = sc_more" by (simp add: s2)
  from s(5) sc_Close have s4: "s4 = sc_closed" by (simp add: s3)
  have fr: "w_writer (fst sc_closed) = sc_frame" by (simp add: sc_frame_def)
  from s(3) have e3: "w_stream (fst sc_flushed) = w_stream (fst sc_written)" by (simp add: s1 s2)
  from s(6) have e6: "Frame toy_contract [1, 2, 3, 4, 5] sc_frame" by (simp add: s4 fr)
  from s(7) have e7: "map_option snd (ReadAll toy Buffer_Read sc_room
       ((small_Reader [])\<lparr>r_reader := sc_frame\<rparr>, world0) []) =
     Some (Ret ([1, 2, 3, 4, 5], None))" by (simp add: s4 fr)
  from h have fw: "fresh_Writer (small_Writer [])" and frd: "fresh_Reader (small_Reader [])"
    by simp_all
  show ?thesis
    using toy_compress_ok toy_decompress_ok fw frd sc_Write sc_Flush e3 sc_Write2 sc_Close
      sc_frame_eq e6 e7
    by simp
qed

end
